theory Spec2Isabelle
  imports Main
begin

section \<open>JavaScript values and the primitives used by secrets.js\<close>

text \<open>
  A parsed JSON document. The property list of \<open>JObj\<close> is in the order in which
  \<open>for (key in obj)\<close> enumerates the object. A value that may be \<open>undefined\<close> is a
  \<open>json option\<close>. Numbers play no part in this file and are kept as integers.
\<close>

datatype json =
    JNull
  | JBool bool
  | JNum int
  | JStr string
  | JArr "json list"
  | JObj "(string \<times> json) list"

text \<open>
  What a call can throw: a \<open>TypeError\<close> of the runtime, the \<open>Error(message)\<close> thrown by
  secrets.js itself, the error object of a failed \<open>client.get\<close> (with the response's
  \<open>statusCode\<close> and \<open>body\<close> when there is a response), and an error raised inside a
  library (\<open>JSON.parse\<close>, minimatch, jsonata).
\<close>

datatype error =
    TypeError
  | Error string
  | RequestError "(nat \<times> string) option"
  | LibraryError string

definition bind_e :: "error + 'a \<Rightarrow> ('a \<Rightarrow> error + 'b) \<Rightarrow> error + 'b" where
  "bind_e m f = (case m of Inl e \<Rightarrow> Inl e | Inr x \<Rightarrow> f x)"

definition dquote :: char where
  "dquote = CHR 0x22"

definition backtick :: char where
  "backtick = CHR 0x60"

text \<open>
  \<open>k in v\<close>. It throws on \<open>undefined\<close>, \<open>null\<close> and every primitive. secrets.js uses it
  with the five attribute names and with \<open>'data'\<close> only, none of which is an index or
  \<open>length\<close>, so on an array it is false.
\<close>

fun js_in :: "string \<Rightarrow> json option \<Rightarrow> error + bool" where
  "js_in k (Some (JObj kvs)) = Inr (k \<in> set (map fst kvs))"
| "js_in k (Some (JArr xs)) = Inr False"
| "js_in k _ = Inl TypeError"

text \<open>
  \<open>v[k]\<close> and \<open>v.k\<close>, for the same names. It throws on \<open>undefined\<close> and \<open>null\<close>; a
  primitive or an array has no such property.
\<close>

fun js_prop :: "json option \<Rightarrow> string \<Rightarrow> error + json option" where
  "js_prop None k = Inl TypeError"
| "js_prop (Some JNull) k = Inl TypeError"
| "js_prop (Some (JObj kvs)) k = Inr (map_of kvs k)"
| "js_prop (Some v) k = Inr None"

text \<open>\<open>v != undefined\<close> (loose inequality: false for \<open>undefined\<close> and for \<open>null\<close>).\<close>

fun js_neq_undefined :: "json option \<Rightarrow> bool" where
  "js_neq_undefined None = False"
| "js_neq_undefined (Some JNull) = False"
| "js_neq_undefined (Some v) = True"

text \<open>\<open>!s\<close> for a string that may be \<open>undefined\<close>.\<close>

fun js_not :: "string option \<Rightarrow> bool" where
  "js_not None = True"
| "js_not (Some s) = (s = [])"

definition startsWith :: "string \<Rightarrow> string \<Rightarrow> bool" where
  "startsWith s p = (take (length p) s = p)"

definition toLowerCase_char :: "char \<Rightarrow> char" where
  "toLowerCase_char c =
     (let n = (of_char c :: nat) in if 65 \<le> n \<and> n \<le> 90 then char_of (n + 32) else c)"

definition toUpperCase_char :: "char \<Rightarrow> char" where
  "toUpperCase_char c =
     (let n = (of_char c :: nat) in if 97 \<le> n \<and> n \<le> 122 then char_of (n - 32) else c)"

text \<open>
  Case conversion, on the ASCII range. \<open>toLowerCase\<close> is used for the comparison with
  \<open>'false'\<close> at line 50 only, and no character outside ASCII has a lower case among the
  letters of that word.
\<close>

definition toLowerCase :: "string \<Rightarrow> string" where
  "toLowerCase s = map toLowerCase_char s"

definition toUpperCase :: "string \<Rightarrow> string" where
  "toUpperCase s = map toUpperCase_char s"

fun digit_char :: "nat \<Rightarrow> char" where
  "digit_char n = char_of (48 + n)"

fun decimal :: "nat \<Rightarrow> string" where
  "decimal n = (if n < 10 then [digit_char n] else decimal (n div 10) @ [digit_char (n mod 10)])"

text \<open>
  The keys \<open>for (let key in v)\<close> runs through: the properties of an object, the indices
  of an array or a string, nothing for any other value.
\<close>

fun for_in_keys :: "json option \<Rightarrow> string list" where
  "for_in_keys (Some (JObj kvs)) = map fst kvs"
| "for_in_keys (Some (JArr xs)) = map decimal [0..<length xs]"
| "for_in_keys (Some (JStr s)) = map decimal [0..<length s]"
| "for_in_keys v = []"

section \<open>What secrets.js imports\<close>

text \<open>
  The libraries, the runtime and the environment are parameters of the model.
  \<^item> \<open>client_get\<close>: \<open>client.get(requestPath)\<close>, given the paths of the calls made before it
    in this run; \<open>Inr body\<close>, or \<open>Inl response\<close> for the thrown error's \<open>response\<close>
    (\<open>statusCode\<close>, \<open>body\<close>), \<open>Inl None\<close> for an error without a response. Bodies are
    strings.
  \<^item> \<open>minimatch\<close>: \<open>minimatch(subject, pattern)\<close>; the subject is an environment variable,
    which may be unset, the pattern whatever the payload holds.
  \<^item> \<open>jsonata_evaluate\<close>: \<open>jsonata(selector).evaluate(data)\<close>, \<open>Inr None\<close> for \<open>undefined\<close>.
  \<^item> \<open>jsonata_ast\<close>: \<open>type\<close> and \<open>steps.length\<close> of \<open>jsonata(selector).ast()\<close>.
  \<^item> \<open>getInput\<close>: \<open>core.getInput(name, {required: false})\<close>.
  \<^item> \<open>process_env\<close>: \<open>process.env\<close>.
  \<^item> \<open>trim\<close>: \<open>String.prototype.trim\<close> of the runtime, which strips the white space and
    the line terminators of Unicode from both ends.
  \<^item> \<open>WILDCARD\<close>, \<open>WILDCARD_UPPERCASE\<close>: the two constants of ./constants.
  \<^item> \<open>sanitize\<close>: the identifier clean-up done by \<open>normalizeOutputKey\<close> of ./utils.
  The lines written with \<open>core.debug\<close> and \<open>core.error\<close> change nothing that the code
  computes and are left out.
\<close>

record lib =
  client_get :: "string list \<Rightarrow> string \<Rightarrow> (nat \<times> string) option + string"
  JSON_parse :: "string \<Rightarrow> error + json"
  JSON_stringify :: "json \<Rightarrow> string"
  minimatch :: "string option \<Rightarrow> json option \<Rightarrow> error + bool"
  jsonata_evaluate :: "string \<Rightarrow> json \<Rightarrow> error + json option"
  jsonata_ast :: "string \<Rightarrow> string \<times> nat"
  getInput :: "string \<Rightarrow> string"
  process_env :: "string \<Rightarrow> string option"
  trim :: "string \<Rightarrow> string"
  WILDCARD :: string
  WILDCARD_UPPERCASE :: string
  sanitize :: "string \<Rightarrow> string"

text \<open>
  Modelled from the spec: \<open>normalizeOutputKey\<close> of ./utils is not among the sources. The
  spec says that a name is normalized (sanitized to a valid output or
  environment-variable identifier) and additionally upper-cased when asked to. The
  second argument defaults to \<open>false\<close>.
\<close>

definition normalizeOutputKey :: "lib \<Rightarrow> string \<Rightarrow> bool \<Rightarrow> string" where
  "normalizeOutputKey L dataKey upperCase =
     (let outputKey = sanitize L dataKey
      in if upperCase then toUpperCase outputKey else outputKey)"

section \<open>isAllowed\<close>

definition isAllowed :: "lib \<Rightarrow> json option \<Rightarrow> error + bool" where
  "isAllowed L data =
     bind_e (js_in ''x-k8s-podname'' data) (\<lambda>has_podname.
     if has_podname then
       bind_e (js_prop data ''x-k8s-podname'') (\<lambda>pod_name.
       bind_e (minimatch L (process_env L ''JOB_POD_NAME'') pod_name) (\<lambda>m1.
       if \<not> m1 then Inr False else
     bind_e (js_in ''x-k8s-namespace'' data) (\<lambda>has_namespace.
     if has_namespace then
       bind_e (js_prop data ''x-k8s-namespace'') (\<lambda>pod_namespace.
       bind_e (minimatch L (process_env L ''JOB_POD_NAMESPACE'') pod_namespace) (\<lambda>m2.
       if \<not> m2 then Inr False else
     bind_e (js_in ''x-k8s-serviceaccount'' data) (\<lambda>has_serviceaccount.
     if has_serviceaccount then
       bind_e (js_prop data ''x-k8s-serviceaccount'') (\<lambda>pod_serviceaccount.
       bind_e (minimatch L (process_env L ''JOB_POD_SERVICEACCOUNT'') pod_serviceaccount) (\<lambda>m3.
       if \<not> m3 then Inr False else
     bind_e (js_in ''x-github-actor'' data) (\<lambda>has_actor.
     if has_actor then
       bind_e (js_prop data ''x-github-actor'') (\<lambda>gh_actor.
       bind_e (minimatch L (process_env L ''GITHUB_ACTOR'') gh_actor) (\<lambda>m4.
       if \<not> m4 then Inr False else
     bind_e (js_in ''x-github-repo'' data) (\<lambda>has_repo.
     if has_repo then
       bind_e (js_prop data ''x-github-repo'') (\<lambda>gh_repo.
       bind_e (minimatch L (process_env L ''GITHUB_REPOSITORY'') gh_repo) (\<lambda>m5.
       if \<not> m5 then Inr False else
       Inr True))
     else Inr False)))
     else Inr False)))
     else Inr False)))
     else Inr False)))
     else Inr False)"

section \<open>The requests, the results and the record of a run\<close>

record secret_request =
  path :: string
  selector :: string
  outputVarName :: string
  envVarName :: string

text \<open>
  \<open>value\<close> is what \<open>selectData\<close> returns: the serialized text as a string, or what
  \<open>JSON.parse\<close> makes of it when it is a string literal.
\<close>

record secret_response =
  request :: secret_request
  "value" :: json
  cachedResponse :: bool

text \<open>
  The calls a run makes, in order: \<open>client.get\<close> on a request path, a body taken from
  \<open>responseCache\<close>, a verdict returned by \<open>isAllowed\<close>, a selector handed to
  \<open>jsonata\<close>. The model records them beside the values the code computes; the code's
  own values never depend on the record, except that \<open>client_get\<close> is given the paths
  fetched so far.
\<close>

datatype event =
    CallGet string
  | CacheHit string
  | GateRun bool
  | Jsonata string

fun called_paths :: "event list \<Rightarrow> string list" where
  "called_paths [] = []"
| "called_paths (CallGet p # evs) = p # called_paths evs"
| "called_paths (ev # evs) = called_paths evs"

section \<open>selectData\<close>

definition not_found_message :: "string \<Rightarrow> string" where
  "not_found_message sel =
     ''Unable to retrieve result for '' @ sel
       @ ''. No match data was found. Double check your Key or Selector.''"

text \<open>
  The condition of the compatibility branch,
  \<open>!result && ((type === "path" && steps.length === 1) || type === "string")
     && selector !== 'data' && 'data' in data\<close>, evaluated left to right.
\<close>

definition compat_condition :: "lib \<Rightarrow> json \<Rightarrow> string \<Rightarrow> string option \<Rightarrow> error + bool" where
  "compat_condition L data sel result =
     (if \<not> js_not result then Inr False
      else if \<not> ((fst (jsonata_ast L sel) = ''path'' \<and> snd (jsonata_ast L sel) = 1)
                   \<or> fst (jsonata_ast L sel) = ''string'') then Inr False
      else if sel = ''data'' then Inr False
      else js_in ''data'' (Some data))"

text \<open>The last four lines: \<open>result.startsWith\<close> throws when \<open>result\<close> is \<open>undefined\<close>.\<close>

definition unwrap_result :: "lib \<Rightarrow> string option \<Rightarrow> error + json" where
  "unwrap_result L result =
     (case result of
        None \<Rightarrow> Inl TypeError
      | Some r \<Rightarrow> if startsWith r [dquote] then JSON_parse L r else Inr (JStr r))"

definition selectData :: "lib \<Rightarrow> json \<Rightarrow> string \<Rightarrow> event list \<times> (error + json)" where
  "selectData L data sel =
     (case jsonata_evaluate L sel data of
        Inl e \<Rightarrow> ([Jsonata sel], Inl e)
      | Inr v \<Rightarrow>
          (let result = map_option (JSON_stringify L) v in
           case compat_condition L data sel result of
             Inl e \<Rightarrow> ([Jsonata sel], Inl e)
           | Inr True \<Rightarrow>
               (case jsonata_evaluate L (''data.'' @ sel) data of
                  Inl e \<Rightarrow> ([Jsonata sel, Jsonata (''data.'' @ sel)], Inl e)
                | Inr v2 \<Rightarrow>
                    ([Jsonata sel, Jsonata (''data.'' @ sel)],
                     unwrap_result L (map_option (JSON_stringify L) v2)))
           | Inr False \<Rightarrow>
               if js_not result then ([Jsonata sel], Inl (Error (not_found_message sel)))
               else ([Jsonata sel], unwrap_result L result)))"

section \<open>selectAndAppendResults\<close>

definition nested_data :: "json \<Rightarrow> error + json option" where
  \<comment> \<open>\<open>body.data["data"]\<close>\<close>
  "nested_data body = bind_e (js_prop (Some body) ''data'') (\<lambda>d. js_prop d ''data'')"

text \<open>
  Lines 253 to 260: the selector handed to \<open>selectData\<close>. The regular expression
  \<open>/.*[\.].*/\<close> finds a match exactly in a string that contains a dot.
\<close>

definition quote_selector :: "string \<Rightarrow> string" where
  "quote_selector sel = (if CHR ''.'' \<in> set sel then sel else [dquote] @ sel @ [dquote])"

definition constructed_selector :: "json \<Rightarrow> string \<Rightarrow> error + string" where
  "constructed_selector body sel =
     (let selector1 = quote_selector sel;
          selector2 = ''data.'' @ selector1
      in bind_e (nested_data body)
           (\<lambda>dd. Inr (if js_neq_undefined dd then ''data.'' @ selector2 else selector2)))"

definition selectAndAppendResults ::
  "lib \<Rightarrow> string \<Rightarrow> json \<Rightarrow> bool \<Rightarrow> secret_request \<Rightarrow> secret_response list
     \<Rightarrow> event list \<times> (error + secret_response list)" where
  "selectAndAppendResults L sel body cached secretRequest res =
     (case constructed_selector body sel of
        Inl e \<Rightarrow> ([], Inl e)
      | Inr sel' \<Rightarrow>
          (case selectData L body sel' of
             (evs, Inl e) \<Rightarrow> (evs, Inl e)
           | (evs, Inr v) \<Rightarrow>
               (evs, Inr (res @ [\<lparr>request = secretRequest, value = v,
                                   cachedResponse = cached\<rparr>]))))"

section \<open>getSecrets\<close>

record state =
  responseCache :: "string \<rightharpoonup> string"
  results :: "secret_response list"
  upperCaseEnv :: bool
  trace :: "event list"

text \<open>
  How one pass of the \<open>for\<close> loop ends: it goes on to the next request, the function
  returns a list, or it throws.
\<close>

datatype flow =
    Continue state
  | Return state "secret_response list"
  | Throw state error

fun flow_state :: "flow \<Rightarrow> state" where
  "flow_state (Continue s) = s"
| "flow_state (Return s res) = s"
| "flow_state (Throw s e) = s"

definition log_events :: "event list \<Rightarrow> state \<Rightarrow> state" where
  "log_events evs s = s\<lparr>trace := trace s @ evs\<rparr>"

text \<open>Lines 79 to 91: the request derived for one key of a wildcard request.\<close>

definition newRequest :: "lib \<Rightarrow> secret_request \<Rightarrow> bool \<Rightarrow> string \<Rightarrow> secret_request" where
  "newRequest L secretRequest upper key =
     (let r1 = secretRequest\<lparr>selector := key\<rparr>;
          r2 = (if selector secretRequest = outputVarName secretRequest
                then r1\<lparr>outputVarName := key, envVarName := key\<rparr>
                else r1\<lparr>outputVarName := outputVarName secretRequest @ key,
                        envVarName := envVarName secretRequest @ key\<rparr>)
      in r2\<lparr>outputVarName := normalizeOutputKey L (outputVarName r2) False,
             envVarName := normalizeOutputKey L (envVarName r2) upper\<rparr>)"

definition reserved_key :: "string \<Rightarrow> bool" where
  "reserved_key key = (startsWith key ''x-k8s-'' \<or> startsWith key ''x-github-'')"

text \<open>Lines 96 to 100: a key that contains a dot is enclosed in backticks.\<close>

definition escape_key :: "string \<Rightarrow> string" where
  "escape_key key = (if CHR ''.'' \<in> set key then [backtick] @ key @ [backtick] else key)"

text \<open>Lines 74 to 109: the loop over the keys of a wildcard request.\<close>

fun wildcard_loop ::
  "lib \<Rightarrow> secret_request \<Rightarrow> json \<Rightarrow> bool \<Rightarrow> string list \<Rightarrow> state \<Rightarrow> flow" where
  "wildcard_loop L secretRequest body cached [] s = Continue s"
| "wildcard_loop L secretRequest body cached (key # keys) s =
     (if reserved_key key
      then wildcard_loop L secretRequest body cached keys s
      else
        (let nr = newRequest L secretRequest (upperCaseEnv s) key
         in case selectAndAppendResults L (escape_key key) body cached nr (results s) of
              (evs, Inl e) \<Rightarrow> Throw (log_events evs s) e
            | (evs, Inr res) \<Rightarrow>
                wildcard_loop L secretRequest body cached keys
                  (log_events evs (s\<lparr>results := res\<rparr>))))"

text \<open>Lines 62 to 119: what is done with the body of a request, fetched or cached.\<close>

definition process_body :: "lib \<Rightarrow> secret_request \<Rightarrow> string \<Rightarrow> bool \<Rightarrow> state \<Rightarrow> flow" where
  "process_body L secretRequest raw cached s =
     (case JSON_parse L raw of
        Inl e \<Rightarrow> Throw s e
      | Inr body \<Rightarrow>
          (case nested_data body of
             Inl e \<Rightarrow> Throw s e
           | Inr inner \<Rightarrow>
               (case isAllowed L inner of
                  Inl e \<Rightarrow> Throw s e
                | Inr allowed \<Rightarrow>
                    (let s1 = log_events [GateRun allowed] s in
                     if \<not> allowed then Return s1 []
                     else if selector secretRequest = WILDCARD L
                             \<or> selector secretRequest = WILDCARD_UPPERCASE L
                     then
                       (let s2 = s1\<lparr>upperCaseEnv := (selector secretRequest = WILDCARD_UPPERCASE L)\<rparr>
                        in case bind_e (js_prop (Some body) ''data'')
                                  (\<lambda>keys. bind_e (nested_data body)
                                     (\<lambda>dd. if js_neq_undefined dd then js_prop keys ''data''
                                            else Inr keys)) of
                             Inl e \<Rightarrow> Throw s2 e
                           | Inr keys \<Rightarrow>
                               wildcard_loop L secretRequest body cached (for_in_keys keys) s2)
                     else
                       (case selectAndAppendResults L (selector secretRequest) body cached
                               secretRequest (results s1) of
                          (evs, Inl e) \<Rightarrow> Throw (log_events evs s1) e
                        | (evs, Inr res) \<Rightarrow> Continue (log_events evs (s1\<lparr>results := res\<rparr>)))))))"

definition notFoundMsg :: "lib \<Rightarrow> string \<Rightarrow> string \<Rightarrow> string" where
  "notFoundMsg L p response_body =
     ''Unable to retrieve result for '' @ [dquote] @ p @ [dquote]
       @ '' because it was not found: '' @ trim L response_body"

definition ignoreNotFound :: "lib \<Rightarrow> bool" where
  \<comment> \<open>the flag read inside the loop, which shadows the parameter of the same name\<close>
  "ignoreNotFound L =
     (toLowerCase (if getInput L ''ignoreNotFound'' = [] then ''false''
                   else getInput L ''ignoreNotFound'') \<noteq> ''false'')"

text \<open>
  Lines 35 to 60: the body of the request, from \<open>responseCache\<close> or from the transport,
  with the \<open>cachedResponse\<close> flag; or the way the pass ends when there is no body.
\<close>

definition fetch :: "lib \<Rightarrow> secret_request \<Rightarrow> state \<Rightarrow> flow + (string \<times> bool \<times> state)" where
  "fetch L secretRequest s =
     (let requestPath = ''v1/'' @ path secretRequest in
      case responseCache s requestPath of
        Some raw \<Rightarrow> Inr (raw, True, log_events [CacheHit requestPath] s)
      | None \<Rightarrow>
          (let s1 = log_events [CallGet requestPath] s in
           case client_get L (called_paths (trace s)) requestPath of
             Inr raw \<Rightarrow>
               Inr (raw, False, s1\<lparr>responseCache := (responseCache s1)(requestPath \<mapsto> raw)\<rparr>)
           | Inl response \<Rightarrow>
               (case response of
                  Some (statusCode, response_body) \<Rightarrow>
                    if statusCode = 404 then
                      (if ignoreNotFound L then Inl (Continue s1)
                       else Inl (Throw s1 (Error (notFoundMsg L (path secretRequest) response_body))))
                    else Inl (Throw s1 (RequestError response))
                | None \<Rightarrow> Inl (Throw s1 (RequestError response)))))"

text \<open>Lines 33 to 119: one pass of the loop over the requests.\<close>

definition process_request :: "lib \<Rightarrow> secret_request \<Rightarrow> state \<Rightarrow> flow" where
  "process_request L secretRequest s =
     (case fetch L secretRequest s of
        Inl ending \<Rightarrow> ending
      | Inr (raw, cached, s1) \<Rightarrow> process_body L secretRequest raw cached s1)"

text \<open>
  Lines 32 to 120: the loop; \<open>Continue\<close> here means that the loop has run through all
  the requests.
\<close>

fun requests_loop :: "lib \<Rightarrow> secret_request list \<Rightarrow> state \<Rightarrow> flow" where
  "requests_loop L [] s = Continue s"
| "requests_loop L (secretRequest # rest) s =
     (case process_request L secretRequest s of
        Continue s' \<Rightarrow> requests_loop L rest s'
      | Return s' res \<Rightarrow> Return s' res
      | Throw s' e \<Rightarrow> Throw s' e)"

definition initial_state :: state where
  "initial_state = \<lparr>responseCache = Map.empty, results = [], upperCaseEnv = False, trace = []\<rparr>"

text \<open>
  \<open>getSecrets(secretRequests, client, ignoreNotFound)\<close>. The third parameter is never
  read: the loop declares a constant of the same name. The result is the record of the
  run and what the caller gets: the list returned, or the error thrown.
\<close>

definition getSecrets ::
  "lib \<Rightarrow> secret_request list \<Rightarrow> bool \<Rightarrow> event list \<times> (error + secret_response list)" where
  "getSecrets L secretRequests ignoreNotFound_param =
     (case requests_loop L secretRequests initial_state of
        Continue s \<Rightarrow> (trace s, Inr (results s))
      | Return s res \<Rightarrow> (trace s, Inr res)
      | Throw s e \<Rightarrow> (trace s, Inl e))"

section \<open>An instance of the imports, for the examples\<close>

text \<open>
  The examples below run the model on an instance of the imports. Each function of the
  instance gives what the real library gives on a fragment of its inputs, which holds
  the bodies, patterns and selectors of the examples:
  \<^item> the serializer, on documents whose strings have no control characters;
  \<^item> the parser, on the bodies of the example store and on string literals whose only
    escapes are those of the double quote and of the backslash;
  \<^item> the glob matcher, on patterns made of literal characters, \<open>*\<close> and \<open>?\<close>, where no
    wildcard has to match a slash or a dot at the start;
  \<^item> the evaluator, on dotted paths through objects whose steps are names of letters,
    digits and underscores, double-quoted strings without a backslash, or backquoted
    names, and on a single double-quoted string; a selector with a quote left open, or
    with text right after a closing quote, is a syntax error, as it is for jsonata;
  \<^item> \<open>trim\<close>, on strings whose white space is ASCII.
\<close>

definition backslash :: char where
  "backslash = CHR 0x5C"

fun escape :: "string \<Rightarrow> string" where
  "escape [] = []"
| "escape (c # cs) =
     (if c = dquote \<or> c = backslash then backslash # c # escape cs else c # escape cs)"

fun unescape :: "string \<Rightarrow> string option" where
  "unescape [] = Some []"
| "unescape [c] = (if c = backslash \<or> c = dquote then None else Some [c])"
| "unescape (c # d # cs) =
     (if c = backslash
      then (if d = dquote \<or> d = backslash then map_option ((#) d) (unescape cs) else None)
      else if c = dquote then None
      else map_option ((#) c) (unescape (d # cs)))"

fun join_with :: "string \<Rightarrow> string list \<Rightarrow> string" where
  "join_with sep [] = []"
| "join_with sep [x] = x"
| "join_with sep (x # y # ys) = x @ sep @ join_with sep (y # ys)"

fun example_stringify :: "json \<Rightarrow> string" where
  "example_stringify JNull = ''null''"
| "example_stringify (JBool b) = (if b then ''true'' else ''false'')"
| "example_stringify (JNum i) = (if i < 0 then ''-'' else []) @ decimal (nat \<bar>i\<bar>)"
| "example_stringify (JStr s) = [dquote] @ escape s @ [dquote]"
| "example_stringify (JArr xs) = ''['' @ join_with '','' (map example_stringify xs) @ '']''"
| "example_stringify (JObj kvs) =
     ''{'' @ join_with '',''
               (map (\<lambda>kv. [dquote] @ escape (fst kv) @ [dquote] @ '':''
                           @ example_stringify (snd kv)) kvs)
       @ ''}''"

definition example_attributes :: "string \<Rightarrow> (string \<times> json) list" where
  "example_attributes podname =
     [(''x-k8s-podname'', JStr podname),
      (''x-k8s-namespace'', JStr ''ci''),
      (''x-k8s-serviceaccount'', JStr ''builder''),
      (''x-github-actor'', JStr ''octo*''),
      (''x-github-repo'', JStr ''acme/*'')]"

definition payload_app :: json where
  "payload_app =
     JObj [(''data'',
            JObj [(''data'',
                   JObj ([(''a'', JStr ''1''), (''b'', JStr ''2''), (''x-k8s-foo'', JStr ''z''),
                          (''c.d'', JStr ''3'')] @ example_attributes ''runner-*'')),
                  (''metadata'', JObj [])])]"

definition payload_denied :: json where
  "payload_denied =
     JObj [(''data'',
            JObj [(''data'', JObj ((''a'', JStr ''9'') # example_attributes ''other-*''))])]"

text \<open>A body of the flatter shape, with the attributes beside the value.\<close>

definition flat_fields :: "(string \<times> json) list" where
  "flat_fields = (''foo'', JStr ''bar'') # example_attributes ''runner-*''"

definition payload_flat :: json where
  "payload_flat = JObj [(''data'', JObj flat_fields)]"

text \<open>An authorized body with a key that contains a double quote.\<close>

definition odd_key :: string where
  "odd_key = ''we'' @ [dquote] @ ''ird''"

definition odd_fields :: "(string \<times> json) list" where
  "odd_fields = [(''ok'', JStr ''1''), (odd_key, JStr ''2'')] @ example_attributes ''runner-*''"

definition payload_odd :: json where
  "payload_odd = JObj [(''data'', JObj [(''data'', JObj odd_fields)])]"

definition example_store :: "(string \<times> json) list" where
  "example_store =
     [(''v1/secret/app'', payload_app),
      (''v1/secret/denied'', payload_denied),
      (''v1/secret/flat'', payload_flat),
      (''v1/secret/odd'', payload_odd)]"

definition example_client_get :: "string list \<Rightarrow> string \<Rightarrow> (nat \<times> string) option + string" where
  "example_client_get earlier p =
     (case map_of example_store p of
        Some v \<Rightarrow> Inr (example_stringify v)
      | None \<Rightarrow>
          if p = ''v1/secret/gone'' then Inl (Some (404, ''no such secret '' @ [CHR 0x0A]))
          else if p = ''v1/secret/down'' then Inl (Some (500, ''internal error''))
          else Inl None)"

fun find_body :: "(string \<times> json) list \<Rightarrow> string \<Rightarrow> json option" where
  "find_body [] text = None"
| "find_body ((p, v) # rest) text =
     (if example_stringify v = text then Some v else find_body rest text)"

definition example_parse :: "string \<Rightarrow> error + json" where
  "example_parse text =
     (case find_body example_store text of
        Some v \<Rightarrow> Inr v
      | None \<Rightarrow>
          if 2 \<le> length text \<and> hd text = dquote \<and> last text = dquote
          then (case unescape (butlast (tl text)) of
                  Some s \<Rightarrow> Inr (JStr s)
                | None \<Rightarrow> Inl (LibraryError ''SyntaxError''))
          else Inl (LibraryError ''SyntaxError''))"

fun glob :: "string \<Rightarrow> string \<Rightarrow> bool" where
  "glob [] s = (s = [])"
| "glob (p # ps) [] = (p = CHR ''*'' \<and> glob ps [])"
| "glob (p # ps) (c # cs) =
     (if p = CHR ''*'' then glob ps (c # cs) \<or> glob (p # ps) cs
      else (p = CHR ''?'' \<or> p = c) \<and> glob ps cs)"

definition example_minimatch :: "string option \<Rightarrow> json option \<Rightarrow> error + bool" where
  "example_minimatch subject pattern =
     (case (subject, pattern) of
        (Some s, Some (JStr p)) \<Rightarrow> Inr (glob p s)
      | _ \<Rightarrow> Inl TypeError)"

definition name_char :: "char \<Rightarrow> bool" where
  "name_char c =
     (c = CHR ''_'' \<or> (let n = (of_char c :: nat)
                       in (48 \<le> n \<and> n \<le> 57) \<or> (65 \<le> n \<and> n \<le> 90) \<or> (97 \<le> n \<and> n \<le> 122)))"

definition bare_name :: "string \<Rightarrow> bool" where
  "bare_name s =
     (s \<noteq> [] \<and> \<not> (48 \<le> (of_char (hd s) :: nat) \<and> (of_char (hd s) :: nat) \<le> 57)
      \<and> s \<notin> set [''true'', ''false'', ''null'', ''and'', ''or'', ''in''])"

text \<open>
  The steps of a selector, or \<open>None\<close> for a selector outside the fragment. The second
  argument is the step read so far, in reverse.
\<close>

datatype step_mode = Bare | Quoted char | Closed

fun split_steps :: "string \<Rightarrow> string \<Rightarrow> step_mode \<Rightarrow> string list option" where
  "split_steps [] cur Bare = (if bare_name (rev cur) then Some [rev cur] else None)"
| "split_steps [] cur (Quoted q) = None"
| "split_steps [] cur Closed = Some [rev cur]"
| "split_steps (c # cs) cur Bare =
     (if c = CHR ''.''
      then (if bare_name (rev cur) then map_option ((#) (rev cur)) (split_steps cs [] Bare)
            else None)
      else if c = dquote \<or> c = backtick
      then (if cur = [] then split_steps cs [] (Quoted c) else None)
      else if name_char c then split_steps cs (c # cur) Bare
      else None)"
| "split_steps (c # cs) cur (Quoted q) =
     (if c = q then split_steps cs cur Closed
      else if c = backslash \<and> q = dquote then None
      else split_steps cs (c # cur) (Quoted q))"
| "split_steps (c # cs) cur Closed =
     (if c = CHR ''.'' then map_option ((#) (rev cur)) (split_steps cs [] Bare) else None)"

fun navigate :: "string list \<Rightarrow> json option \<Rightarrow> json option" where
  "navigate [] v = v"
| "navigate (k # ks) (Some (JObj kvs)) = navigate ks (map_of kvs k)"
| "navigate (k # ks) v = None"

definition example_jsonata_ast :: "string \<Rightarrow> string \<times> nat" where
  "example_jsonata_ast sel =
     (case split_steps sel [] Bare of
        None \<Rightarrow> (''error'', 0)
      | Some steps \<Rightarrow>
          if take 1 sel = [dquote] \<and> length steps = 1 then (''string'', 0)
          else (''path'', length steps))"

definition example_jsonata_evaluate :: "string \<Rightarrow> json \<Rightarrow> error + json option" where
  "example_jsonata_evaluate sel data =
     (case split_steps sel [] Bare of
        None \<Rightarrow> Inl (LibraryError ''jsonata: syntax error'')
      | Some steps \<Rightarrow>
          if take 1 sel = [dquote] \<and> length steps = 1 then Inr (Some (JStr (hd steps)))
          else Inr (navigate steps (Some data)))"

definition is_space :: "char \<Rightarrow> bool" where
  "is_space c = ((of_char c :: nat) \<in> {9, 10, 11, 12, 13, 32})"

definition example_trim :: "string \<Rightarrow> string" where
  "example_trim s = rev (dropWhile is_space (rev (dropWhile is_space s)))"

definition example_env :: "string \<Rightarrow> string option" where
  "example_env = map_of
     [(''JOB_POD_NAME'', ''runner-7''),
      (''JOB_POD_NAMESPACE'', ''ci''),
      (''JOB_POD_SERVICEACCOUNT'', ''builder''),
      (''GITHUB_ACTOR'', ''octocat''),
      (''GITHUB_REPOSITORY'', ''acme/app'')]"

definition example_sanitize :: "string \<Rightarrow> string" where
  "example_sanitize s = filter name_char s"

definition example_lib :: "bool \<Rightarrow> lib" where
  "example_lib ignore =
     \<lparr>client_get = example_client_get,
      JSON_parse = example_parse,
      JSON_stringify = example_stringify,
      minimatch = example_minimatch,
      jsonata_evaluate = example_jsonata_evaluate,
      jsonata_ast = example_jsonata_ast,
      getInput = (\<lambda>name. if name = ''ignoreNotFound'' \<and> ignore then ''True'' else []),
      process_env = example_env,
      trim = example_trim,
      WILDCARD = ''**'',
      WILDCARD_UPPERCASE = ''*'',
      sanitize = example_sanitize\<rparr>"

definition req :: "string \<Rightarrow> string \<Rightarrow> string \<Rightarrow> string \<Rightarrow> secret_request" where
  "req p sel out env = \<lparr>path = p, selector = sel, outputVarName = out, envVarName = env\<rparr>"

text \<open>The requests of the examples, and what the loop has done after the first of them.\<close>

definition request_a :: secret_request where
  "request_a = req ''secret/app'' ''a'' ''A'' ''A''"

definition request_b :: secret_request where
  "request_b = req ''secret/app'' ''b'' ''B'' ''B''"

definition request_denied :: secret_request where
  "request_denied = req ''secret/denied'' ''a'' ''D'' ''D''"

definition after_request_a :: state where
  "after_request_a = flow_state (requests_loop (example_lib False) [request_a] initial_state)"

definition request_gone :: secret_request where
  "request_gone = req ''secret/gone'' ''a'' ''G'' ''G''"

definition request_all :: secret_request where
  "request_all = req ''secret/app'' ''*'' ''*'' ''*''"

definition request_down :: secret_request where
  "request_down = req ''secret/down'' ''a'' ''X'' ''X''"

definition request_flat :: secret_request where
  "request_flat = req ''secret/flat'' ''foo'' ''FOO'' ''FOO''"


definition request_odd :: secret_request where
  "request_odd = req ''secret/odd'' ''**'' ''**'' ''**''"

section \<open>The statements of the authorization gate and of the record of a run\<close>

text \<open>
  The gate as the specification words it: the required attributes with the environment
  variable each is matched against, checked in this order; a check denies when the
  attribute is absent or when the variable's value does not match the attribute's value
  as a pattern; the first check that denies ends the evaluation; the gate allows when
  all checks pass. An error raised by the matcher ends the evaluation as well.
\<close>

definition required_attributes :: "(string \<times> string) list" where
  "required_attributes =
     [(''x-k8s-podname'', ''JOB_POD_NAME''),
      (''x-k8s-namespace'', ''JOB_POD_NAMESPACE''),
      (''x-k8s-serviceaccount'', ''JOB_POD_SERVICEACCOUNT''),
      (''x-github-actor'', ''GITHUB_ACTOR''),
      (''x-github-repo'', ''GITHUB_REPOSITORY'')]"

fun checks_in_order ::
  "lib \<Rightarrow> (string \<times> json) list \<Rightarrow> (string \<times> string) list \<Rightarrow> error + bool" where
  "checks_in_order L kvs [] = Inr True"
| "checks_in_order L kvs ((key, var) # rest) =
     (case map_of kvs key of
        None \<Rightarrow> Inr False
      | Some pattern \<Rightarrow>
          (case minimatch L (process_env L var) (Some pattern) of
             Inl e \<Rightarrow> Inl e
           | Inr False \<Rightarrow> Inr False
           | Inr True \<Rightarrow> checks_in_order L kvs rest))"

fun is_jsonata :: "event \<Rightarrow> bool" where
  "is_jsonata (Jsonata sel) = True"
| "is_jsonata ev = False"

fun resolution :: "event \<Rightarrow> bool" where
  "resolution (CallGet p) = True"
| "resolution (CacheHit p) = True"
| "resolution ev = False"

fun is_Return :: "flow \<Rightarrow> bool" where
  "is_Return (Return s res) = True"
| "is_Return fl = False"

fun is_Continue :: "flow \<Rightarrow> bool" where
  "is_Continue (Continue s) = True"
| "is_Continue fl = False"

text \<open>
  What the caller of \<open>getSecrets\<close> gets from the way the loop ended (line 122 when it ran
  through).
\<close>

definition finish :: "flow \<Rightarrow> event list \<times> (error + secret_response list)" where
  "finish fl =
     (case fl of
        Continue s \<Rightarrow> (trace s, Inr (results s))
      | Return s res \<Rightarrow> (trace s, Inr res)
      | Throw s e \<Rightarrow> (trace s, Inl e))"

text \<open>
  A record of a run is gated when every selector handed to jsonata comes after a verdict
  \<open>true\<close> of the gate with no body resolved in between: the flag is dropped whenever a
  body is fetched or taken from the cache, and set by the verdict of the gate.
\<close>

fun gated :: "bool \<Rightarrow> event list \<Rightarrow> bool" where
  "gated a [] = True"
| "gated a (CallGet p # evs) = gated False evs"
| "gated a (CacheHit p # evs) = gated False evs"
| "gated a (GateRun v # evs) = gated v evs"
| "gated a (Jsonata sel # evs) = (a \<and> gated a evs)"

text \<open>
  The paths for which a GET call of the record returned a body, \<open>earlier\<close> being the
  paths of the GET calls made before the record starts.
\<close>

fun fetched_paths :: "lib \<Rightarrow> string list \<Rightarrow> event list \<Rightarrow> string list" where
  "fetched_paths L earlier [] = []"
| "fetched_paths L earlier (CallGet p # evs) =
     (case client_get L earlier p of Inr raw \<Rightarrow> [p] | Inl response \<Rightarrow> [])
       @ fetched_paths L (earlier @ [p]) evs"
| "fetched_paths L earlier (ev # evs) = fetched_paths L earlier evs"

text \<open>
  In a record \<open>T\<close>, a GET call for a path comes only while no GET call for it has
  returned a body, and a cache hit only after one has.
\<close>

definition get_once :: "lib \<Rightarrow> event list \<Rightarrow> bool" where
  "get_once L T =
     (\<forall>i<length T. \<forall>q.
        (T ! i = CallGet q \<longrightarrow> q \<notin> set (fetched_paths L [] (take i T)))
        \<and> (T ! i = CacheHit q \<longrightarrow> q \<in> set (fetched_paths L [] (take i T))))"

text \<open>
  The selector that reaches \<open>selectData\<close> for the key \<open>k\<close> of a wildcard request over a
  nested payload: the key between backticks when it contains a dot, between double
  quotes otherwise, after \<open>data.data.\<close>
\<close>

definition wildcard_selector :: "string \<Rightarrow> string" where
  "wildcard_selector k =
     ''data.data.'' @ (if CHR ''.'' \<in> set k then [backtick] @ k @ [backtick]
                       else [dquote] @ k @ [dquote])"

section \<open>Properties\<close>

subsection \<open>The primitives\<close>

lemma bind_e_simps [simp]:
  "bind_e (Inl e) f = Inl e" "bind_e (Inr x) f = f x"
  by (simp_all add: bind_e_def)

lemma js_in_obj: "js_in k (Some (JObj kvs)) = Inr (map_of kvs k \<noteq> None)"
  by (simp add: map_of_eq_None_iff)

lemma js_in_True: "js_in k d = Inr True \<Longrightarrow> \<exists>kvs. d = Some (JObj kvs)"
  by (cases "(k, d)" rule: js_in.cases) auto

subsection \<open>The authorization gate\<close>

text \<open>
  C2. On every payload data object, \<open>isAllowed\<close> checks the five attributes
  x-k8s-podname, x-k8s-namespace, x-k8s-serviceaccount, x-github-actor and x-github-repo
  in this order, each against its environment variable with the payload's value as the
  pattern; an absent attribute or a failed match denies at once, and the gate allows
  only when all five checks pass.
\<close>

theorem isAllowed_checks_in_order:
  "isAllowed L (Some (JObj kvs)) = checks_in_order L kvs required_attributes"
  unfolding isAllowed_def required_attributes_def js_in_obj
  by (simp split: option.splits sum.splits bool.splits)

lemma isAllowed_True_obj:
  assumes "isAllowed L d = Inr True"
  shows "\<exists>kvs. d = Some (JObj kvs)"
proof (cases "js_in ''x-k8s-podname'' d")
  case (Inl e)
  with assms show ?thesis by (simp add: isAllowed_def)
next
  case (Inr b)
  with assms have "b" by (cases b) (simp_all add: isAllowed_def)
  with Inr show ?thesis by (auto dest: js_in_True)
qed

subsection \<open>Selection\<close>

lemma selectData_events:
  "fst (selectData L d sel) = [Jsonata sel]
   \<or> fst (selectData L d sel) = [Jsonata sel, Jsonata (''data.'' @ sel)]"
  by (simp add: selectData_def Let_def split: sum.splits bool.splits)

lemma constructed_selector_nested:
  "nested_data body = Inr (Some (JObj kvs)) \<Longrightarrow>
   constructed_selector body sel = Inr (''data.data.'' @ quote_selector sel)"
  by (simp add: constructed_selector_def)

lemma selectAndAppendResults_alt:
  "selectAndAppendResults L sel body c r res =
     (case constructed_selector body sel of
        Inl e \<Rightarrow> ([], Inl e)
      | Inr sel' \<Rightarrow>
          (fst (selectData L body sel'),
           case snd (selectData L body sel') of
             Inl e \<Rightarrow> Inl e
           | Inr v \<Rightarrow> Inr (res @ [\<lparr>request = r, value = v, cachedResponse = c\<rparr>])))"
proof (cases "constructed_selector body sel")
  case (Inl e)
  then show ?thesis by (simp add: selectAndAppendResults_def)
next
  case (Inr sel')
  obtain evs out where sd: "selectData L body sel' = (evs, out)"
    by (cases "selectData L body sel'")
  show ?thesis
    by (cases out) (simp_all add: selectAndAppendResults_def Inr sd)
qed

lemma selectAndAppendResults_nested:
  assumes "nested_data body = Inr (Some (JObj kvs))"
  shows "selectAndAppendResults L sel body c r res =
     (fst (selectData L body (''data.data.'' @ quote_selector sel)),
      case snd (selectData L body (''data.data.'' @ quote_selector sel)) of
        Inl e \<Rightarrow> Inl e
      | Inr v \<Rightarrow> Inr (res @ [\<lparr>request = r, value = v, cachedResponse = c\<rparr>]))"
  by (simp add: selectAndAppendResults_alt constructed_selector_nested [OF assms])

lemma selectAndAppendResults_events:
  "list_all is_jsonata (fst (selectAndAppendResults L sel body c r res))"
proof (cases "constructed_selector body sel")
  case (Inl e)
  then show ?thesis by (simp add: selectAndAppendResults_alt)
next
  case (Inr sel')
  have "list_all is_jsonata (fst (selectData L body sel'))"
    using selectData_events [of L body sel'] by auto
  with Inr show ?thesis
    by (simp add: selectAndAppendResults_alt)
qed

lemma selectAndAppendResults_results:
  "snd (selectAndAppendResults L sel body c r res) = Inr res' \<Longrightarrow>
   \<exists>v. res' = res @ [\<lparr>request = r, value = v, cachedResponse = c\<rparr>]"
  by (auto simp: selectAndAppendResults_alt split: sum.splits)

subsection \<open>The loop over the keys of a wildcard request\<close>

lemma wildcard_loop_trace:
  "\<exists>js. trace (flow_state (wildcard_loop L r body c keys s)) = trace s @ js
        \<and> list_all is_jsonata js
        \<and> responseCache (flow_state (wildcard_loop L r body c keys s)) = responseCache s"
proof (induction keys arbitrary: s)
  case Nil
  then show ?case by simp
next
  case (Cons key keys)
  show ?case
  proof (cases "reserved_key key")
    case True
    with Cons.IH [of s] show ?thesis by simp
  next
    case False
    let ?nr = "newRequest L r (upperCaseEnv s) key"
    obtain evs out where sa:
      "selectAndAppendResults L (escape_key key) body c ?nr (results s) = (evs, out)"
      by (cases "selectAndAppendResults L (escape_key key) body c ?nr (results s)")
    have js: "list_all is_jsonata evs"
      using selectAndAppendResults_events [of L "escape_key key" body c ?nr "results s"] sa
      by simp
    show ?thesis
    proof (cases out)
      case (Inl e)
      with False sa js show ?thesis by (simp add: log_events_def)
    next
      case (Inr res)
      let ?s' = "log_events evs (s\<lparr>results := res\<rparr>)"
      from Cons.IH [of ?s'] obtain js' where
        "trace (flow_state (wildcard_loop L r body c keys ?s')) = trace ?s' @ js'"
        "list_all is_jsonata js'"
        "responseCache (flow_state (wildcard_loop L r body c keys ?s')) = responseCache ?s'"
        by blast
      with False sa js Inr show ?thesis by (simp add: log_events_def)
    qed
  qed
qed

lemma wildcard_loop_not_Return:
  "wildcard_loop L r body c keys s \<noteq> Return s' res"
proof (induction keys arbitrary: s)
  case Nil
  then show ?case by simp
next
  case (Cons key keys)
  then show ?case
    by (simp add: Let_def split: prod.splits sum.splits)
qed

lemma wildcard_loop_Continue:
  assumes "wildcard_loop L r body c keys s = Continue s'"
  shows "\<exists>vs. length vs = length (filter (\<lambda>k. \<not> reserved_key k) keys)
           \<and> results s' = results s @
               map (\<lambda>(k, v). \<lparr>request = newRequest L r (upperCaseEnv s) k, value = v,
                               cachedResponse = c\<rparr>)
                 (zip (filter (\<lambda>k. \<not> reserved_key k) keys) vs)
           \<and> responseCache s' = responseCache s \<and> upperCaseEnv s' = upperCaseEnv s"
  using assms
proof (induction keys arbitrary: s)
  case Nil
  then show ?case by simp
next
  case (Cons key keys)
  show ?case
  proof (cases "reserved_key key")
    case True
    with Cons.prems have "wildcard_loop L r body c keys s = Continue s'" by simp
    from Cons.IH [OF this] True show ?thesis by simp
  next
    case False
    let ?nr = "newRequest L r (upperCaseEnv s) key"
    obtain evs out where sa:
      "selectAndAppendResults L (escape_key key) body c ?nr (results s) = (evs, out)"
      by (cases "selectAndAppendResults L (escape_key key) body c ?nr (results s)")
    show ?thesis
    proof (cases out)
      case (Inl e)
      with False sa Cons.prems show ?thesis by simp
    next
      case (Inr res)
      let ?s1 = "log_events evs (s\<lparr>results := res\<rparr>)"
      from sa Inr obtain v where res: "res = results s @ [\<lparr>request = ?nr, value = v, cachedResponse = c\<rparr>]"
        using selectAndAppendResults_results [of L "escape_key key" body c ?nr "results s" res]
        by auto
      from False sa Inr Cons.prems have "wildcard_loop L r body c keys ?s1 = Continue s'"
        by simp
      from Cons.IH [OF this] obtain vs where vs:
        "length vs = length (filter (\<lambda>k. \<not> reserved_key k) keys)"
        "results s' = results ?s1 @
               map (\<lambda>(k, v). \<lparr>request = newRequest L r (upperCaseEnv ?s1) k, value = v,
                               cachedResponse = c\<rparr>)
                 (zip (filter (\<lambda>k. \<not> reserved_key k) keys) vs)"
        "responseCache s' = responseCache ?s1" "upperCaseEnv s' = upperCaseEnv ?s1"
        by blast
      show ?thesis
        using vs False res
        by (intro exI [of _ "v # vs"]) (simp add: log_events_def)
    qed
  qed
qed


subsection \<open>One pass of the loop over the requests\<close>

lemma fetch_cached:
  "responseCache s (''v1/'' @ path r) = Some raw \<Longrightarrow>
   fetch L r s = Inr (raw, True, log_events [CacheHit (''v1/'' @ path r)] s)"
  by (simp add: fetch_def)

lemma fetch_Inr:
  assumes "fetch L r s = Inr (raw, c, s1)"
  shows "trace s1 = trace s @ [if c then CacheHit (''v1/'' @ path r) else CallGet (''v1/'' @ path r)]"
    and "results s1 = results s"
    and "upperCaseEnv s1 = upperCaseEnv s"
    and "c = (responseCache s (''v1/'' @ path r) \<noteq> None)"
    and "responseCache s1 = (responseCache s)(''v1/'' @ path r \<mapsto> raw)"
    and "\<not> c \<Longrightarrow> client_get L (called_paths (trace s)) (''v1/'' @ path r) = Inr raw"
  using assms
  by (auto simp: fetch_def Let_def log_events_def split: option.splits sum.splits if_splits)

lemma fetch_Inl:
  assumes "fetch L r s = Inl fl"
  shows "trace (flow_state fl) = trace s @ [CallGet (''v1/'' @ path r)]"
    and "results (flow_state fl) = results s"
    and "responseCache (flow_state fl) = responseCache s"
    and "\<not> is_Return fl"
    and "responseCache s (''v1/'' @ path r) = None"
    and "\<exists>resp. client_get L (called_paths (trace s)) (''v1/'' @ path r) = Inl resp"
  using assms
  by (auto simp: fetch_def Let_def log_events_def split: option.splits sum.splits if_splits)

lemma process_body_denied:
  assumes "JSON_parse L raw = Inr body" "nested_data body = Inr inner"
    "isAllowed L inner = Inr False"
  shows "process_body L r raw c s = Return (log_events [GateRun False] s) []"
  using assms by (simp add: process_body_def)

lemma nested_data_obj:
  assumes "nested_data body = Inr (Some v)"
  shows "\<exists>d. js_prop (Some body) ''data'' = Inr (Some d) \<and> js_prop (Some d) ''data'' = Inr (Some v)"
proof (cases "js_prop (Some body) ''data''")
  case (Inl e)
  with assms show ?thesis by (simp add: nested_data_def)
next
  case (Inr d)
  with assms have "js_prop d ''data'' = Inr (Some v)" by (simp add: nested_data_def)
  then show ?thesis using Inr by (cases d) auto
qed

lemma process_body_allowed:
  assumes "JSON_parse L raw = Inr body" "nested_data body = Inr (Some (JObj kvs))"
    "isAllowed L (Some (JObj kvs)) = Inr True"
  shows "process_body L r raw c s =
       (if selector r = WILDCARD L \<or> selector r = WILDCARD_UPPERCASE L
        then wildcard_loop L r body c (map fst kvs)
               ((log_events [GateRun True] s)\<lparr>upperCaseEnv := (selector r = WILDCARD_UPPERCASE L)\<rparr>)
        else (case snd (selectData L body (''data.data.'' @ quote_selector (selector r))) of
                Inl e \<Rightarrow>
                  Throw (log_events (GateRun True
                           # fst (selectData L body (''data.data.'' @ quote_selector (selector r)))) s) e
              | Inr v \<Rightarrow>
                  Continue ((log_events (GateRun True
                           # fst (selectData L body (''data.data.'' @ quote_selector (selector r)))) s)
                     \<lparr>results := results s @ [\<lparr>request = r, value = v, cachedResponse = c\<rparr>]\<rparr>)))"
proof -
  from nested_data_obj [OF assms(2)] obtain d where
    d: "js_prop (Some body) ''data'' = Inr (Some d)" "js_prop (Some d) ''data'' = Inr (Some (JObj kvs))"
    by blast
  show ?thesis
    using assms d
    by (auto simp: process_body_def Let_def selectAndAppendResults_nested [OF assms(2)] log_events_def
        split: sum.splits)
qed


lemma process_body_shape:
  "(\<exists>e. process_body L r raw c s = Throw s e)
   \<or> process_body L r raw c s = Return (log_events [GateRun False] s) []
   \<or> (\<not> is_Return (process_body L r raw c s)
      \<and> (\<exists>js. list_all is_jsonata js
            \<and> trace (flow_state (process_body L r raw c s)) = trace s @ GateRun True # js))"
proof (cases "JSON_parse L raw")
  case (Inl e)
  then show ?thesis by (simp add: process_body_def)
next
  case body: (Inr body)
  show ?thesis
  proof (cases "nested_data body")
    case (Inl e)
    with body show ?thesis by (simp add: process_body_def)
  next
    case inner: (Inr inner)
    show ?thesis
    proof (cases "isAllowed L inner")
      case (Inl e)
      with body inner show ?thesis by (simp add: process_body_def)
    next
      case (Inr allowed)
      show ?thesis
      proof (cases allowed)
        case False
        with Inr process_body_denied [OF body inner] show ?thesis by simp
      next
        case True
        with Inr have al: "isAllowed L inner = Inr True" by simp
        from isAllowed_True_obj [OF al] obtain kvs where kvs: "inner = Some (JObj kvs)"
          by blast
        note pb = process_body_allowed [OF body inner [unfolded kvs] al [unfolded kvs], of r c s]
        show ?thesis
        proof (cases "selector r = WILDCARD L \<or> selector r = WILDCARD_UPPERCASE L")
          case wc: True
          let ?s2 = "(log_events [GateRun True] s)\<lparr>upperCaseEnv := (selector r = WILDCARD_UPPERCASE L)\<rparr>"
          from wc pb have eq: "process_body L r raw c s = wildcard_loop L r body c (map fst kvs) ?s2"
            by simp
          from wildcard_loop_trace [of L r body c "map fst kvs" ?s2] obtain js where
            js: "trace (flow_state (wildcard_loop L r body c (map fst kvs) ?s2)) = trace ?s2 @ js"
              "list_all is_jsonata js" by blast
          have nr: "\<not> is_Return (wildcard_loop L r body c (map fst kvs) ?s2)"
            using wildcard_loop_not_Return [of L r body c "map fst kvs" ?s2]
            by (cases "wildcard_loop L r body c (map fst kvs) ?s2") auto
          from js nr eq show ?thesis by (auto simp: log_events_def)
        next
          case False
          let ?sd = "selectData L body (''data.data.'' @ quote_selector (selector r))"
          have "list_all is_jsonata (fst ?sd)"
            using selectData_events [of L body "''data.data.'' @ quote_selector (selector r)"]
            by auto
          with False pb show ?thesis
            by (cases "snd ?sd") (auto simp: log_events_def)
        qed
      qed
    qed
  qed
qed

lemma process_request_shape:
  "\<exists>ev new. resolution ev
     \<and> trace (flow_state (process_request L r s)) = trace s @ ev # new
     \<and> ((new = [] \<and> \<not> is_Return (process_request L r s))
        \<or> (new = [GateRun False] \<and> (\<exists>s'. process_request L r s = Return s' []))
        \<or> (\<not> is_Return (process_request L r s)
           \<and> (\<exists>js. list_all is_jsonata js \<and> new = GateRun True # js)))"
proof (cases "fetch L r s")
  case (Inl fl)
  from fetch_Inl(1,4) [OF Inl] Inl show ?thesis
    by (intro exI [of _ "CallGet (''v1/'' @ path r)"] exI [of _ "[]"])
       (simp add: process_request_def)
next
  case (Inr t)
  then obtain raw c s1 where f: "fetch L r s = Inr (raw, c, s1)" by (cases t) auto
  let ?ev = "if c then CacheHit (''v1/'' @ path r) else CallGet (''v1/'' @ path r)"
  have pr: "process_request L r s = process_body L r raw c s1"
    using f by (simp add: process_request_def)
  have tr: "trace s1 = trace s @ [?ev]" using fetch_Inr(1) [OF f] .
  have res: "resolution ?ev" by simp
  from process_body_shape [of L r raw c s1]
  show ?thesis
  proof (elim disjE exE conjE)
    fix e assume "process_body L r raw c s1 = Throw s1 e"
    with pr tr res show ?thesis
      by (intro exI [of _ ?ev] exI [of _ "[]"]) simp
  next
    assume "process_body L r raw c s1 = Return (log_events [GateRun False] s1) []"
    with pr tr res show ?thesis
      by (intro exI [of _ ?ev] exI [of _ "[GateRun False]"]) (simp add: log_events_def)
  next
    fix js assume "\<not> is_Return (process_body L r raw c s1)" "list_all is_jsonata js"
      "trace (flow_state (process_body L r raw c s1)) = trace s1 @ GateRun True # js"
    with pr tr res show ?thesis
      by (intro exI [of _ ?ev] exI [of _ "GateRun True # js"]) simp
  qed
qed

lemma getSecrets_finish: "getSecrets L rs p = finish (requests_loop L rs initial_state)"
  by (simp add: getSecrets_def finish_def)

lemma requests_loop_append:
  "requests_loop L (xs @ ys) s =
     (case requests_loop L xs s of
        Continue s' \<Rightarrow> requests_loop L ys s'
      | Return s' res \<Rightarrow> Return s' res
      | Throw s' e \<Rightarrow> Throw s' e)"
  by (induction xs arbitrary: s) (auto split: flow.splits)

lemma jsonata_not_gate: "list_all is_jsonata js \<Longrightarrow> GateRun v \<notin> set js"
  by (induction js) auto

lemma requests_loop_denial:
  assumes "GateRun False \<notin> set (trace s)"
  shows "case requests_loop L rs s of
           Continue s' \<Rightarrow> GateRun False \<notin> set (trace s')
         | Return s' res \<Rightarrow> res = []
         | Throw s' e \<Rightarrow> GateRun False \<notin> set (trace s')"
  using assms
proof (induction rs arbitrary: s)
  case Nil
  then show ?case by simp
next
  case (Cons r rs)
  from process_request_shape [of L r s] obtain ev new where
    ev: "resolution ev" and tr: "trace (flow_state (process_request L r s)) = trace s @ ev # new"
    and sh: "(new = [] \<and> \<not> is_Return (process_request L r s))
        \<or> (new = [GateRun False] \<and> (\<exists>s'. process_request L r s = Return s' []))
        \<or> (\<not> is_Return (process_request L r s)
           \<and> (\<exists>js. list_all is_jsonata js \<and> new = GateRun True # js))"
    by blast
  have evn: "ev \<noteq> GateRun False" using ev by (cases ev) auto
  show ?case
  proof (cases "process_request L r s")
    case (Continue s')
    with sh tr evn Cons.prems have "GateRun False \<notin> set (trace s')"
      by (auto dest: jsonata_not_gate)
    from Cons.IH [OF this] Continue show ?thesis by simp
  next
    case (Return s' res)
    with sh show ?thesis by auto
  next
    case (Throw s' e)
    with sh tr evn Cons.prems show ?thesis
      by (auto dest: jsonata_not_gate)
  qed
qed

lemma gated_append_resolution:
  "resolution ev \<Longrightarrow> gated a (xs @ ev # ys) = (gated a xs \<and> gated False ys)"
proof (induction xs arbitrary: a)
  case Nil
  then show ?case by (cases ev) auto
next
  case (Cons x xs)
  then show ?case by (cases x) auto
qed

lemma gated_jsonata: "list_all is_jsonata js \<Longrightarrow> gated True js"
proof (induction js)
  case Nil
  then show ?case by simp
next
  case (Cons x xs)
  then show ?case by (cases x) auto
qed

lemma requests_loop_gated:
  "gated False (trace s) \<Longrightarrow> gated False (trace (flow_state (requests_loop L rs s)))"
proof (induction rs arbitrary: s)
  case Nil
  then show ?case by simp
next
  case (Cons r rs)
  from process_request_shape [of L r s] obtain ev new where
    ev: "resolution ev" and tr: "trace (flow_state (process_request L r s)) = trace s @ ev # new"
    and sh: "new = [] \<or> new = [GateRun False] \<or> (\<exists>js. list_all is_jsonata js \<and> new = GateRun True # js)"
    by blast
  from sh have "gated False new" by (auto simp: gated_jsonata)
  with Cons.prems tr ev have g: "gated False (trace (flow_state (process_request L r s)))"
    by (simp add: gated_append_resolution)
  show ?case
  proof (cases "process_request L r s")
    case (Continue s')
    with g Cons.IH [of s'] show ?thesis by simp
  next
    case (Return s' res)
    with g show ?thesis by simp
  next
    case (Throw s' e)
    with g show ?thesis by simp
  qed
qed

lemma fst_finish: "fst (finish fl) = trace (flow_state fl)"
  by (cases fl) (simp_all add: finish_def)

lemma getSecrets_gated: "gated False (fst (getSecrets L rs p))"
  using requests_loop_gated [of initial_state L rs]
  by (simp add: getSecrets_finish fst_finish initial_state_def)


subsection \<open>The response cache\<close>

lemma process_body_cache:
  "responseCache (flow_state (process_body L r raw c s)) = responseCache s"
proof (cases "JSON_parse L raw")
  case (Inl e)
  then show ?thesis by (simp add: process_body_def)
next
  case body: (Inr body)
  show ?thesis
  proof (cases "nested_data body")
    case (Inl e)
    with body show ?thesis by (simp add: process_body_def)
  next
    case inner: (Inr inner)
    show ?thesis
    proof (cases "isAllowed L inner")
      case (Inl e)
      with body inner show ?thesis by (simp add: process_body_def)
    next
      case (Inr allowed)
      show ?thesis
      proof (cases allowed)
        case False
        with Inr process_body_denied [OF body inner, of r c s] show ?thesis
          by (simp add: log_events_def)
      next
        case True
        with Inr have al: "isAllowed L inner = Inr True" by simp
        from isAllowed_True_obj [OF al] obtain kvs where kvs: "inner = Some (JObj kvs)"
          by blast
        note pb = process_body_allowed [OF body inner [unfolded kvs] al [unfolded kvs], of r c s]
        show ?thesis
        proof (cases "selector r = WILDCARD L \<or> selector r = WILDCARD_UPPERCASE L")
          case wc: True
          let ?s2 = "(log_events [GateRun True] s)\<lparr>upperCaseEnv := (selector r = WILDCARD_UPPERCASE L)\<rparr>"
          from wc pb have eq: "process_body L r raw c s = wildcard_loop L r body c (map fst kvs) ?s2"
            by simp
          from wildcard_loop_trace [of L r body c "map fst kvs" ?s2] eq
          show ?thesis by (auto simp: log_events_def)
        next
          case False
          let ?sd = "selectData L body (''data.data.'' @ quote_selector (selector r))"
          from False pb show ?thesis
            by (cases "snd ?sd") (auto simp: log_events_def)
        qed
      qed
    qed
  qed
qed

lemma process_body_no_resolution:
  "\<exists>new. trace (flow_state (process_body L r raw c s)) = trace s @ new
         \<and> list_all (\<lambda>ev. \<not> resolution ev) new"
proof -
  have j: "list_all (\<lambda>ev. \<not> resolution ev) js" if "list_all is_jsonata js" for js
    using that by (induction js) (auto elim: is_jsonata.elims)
  from process_body_shape [of L r raw c s] show ?thesis
  proof (elim disjE exE conjE)
    fix e assume "process_body L r raw c s = Throw s e"
    then show ?thesis by (intro exI [of _ "[]"]) simp
  next
    assume "process_body L r raw c s = Return (log_events [GateRun False] s) []"
    then show ?thesis by (intro exI [of _ "[GateRun False]"]) (simp add: log_events_def)
  next
    fix js assume "list_all is_jsonata js"
      "trace (flow_state (process_body L r raw c s)) = trace s @ GateRun True # js"
    then show ?thesis by (intro exI [of _ "GateRun True # js"]) (simp add: j)
  qed
qed

lemma process_request_cached_pass:
  assumes "responseCache s (''v1/'' @ path r) = Some raw"
  shows "\<exists>new. trace (flow_state (process_request L r s))
                 = trace s @ CacheHit (''v1/'' @ path r) # new
           \<and> list_all (\<lambda>ev. \<not> resolution ev) new"
    and "responseCache (flow_state (process_request L r s)) = responseCache s"
proof -
  let ?s1 = "log_events [CacheHit (''v1/'' @ path r)] s"
  have pr: "process_request L r s = process_body L r raw True ?s1"
    using fetch_cached [OF assms] by (simp add: process_request_def)
  from process_body_no_resolution [of L r raw True ?s1] pr
  show "\<exists>new. trace (flow_state (process_request L r s))
                 = trace s @ CacheHit (''v1/'' @ path r) # new
           \<and> list_all (\<lambda>ev. \<not> resolution ev) new"
    by (auto simp: log_events_def)
  from process_body_cache [of L r raw True ?s1] pr
  show "responseCache (flow_state (process_request L r s)) = responseCache s"
    by (simp add: log_events_def)
qed

lemma process_request_fresh_pass:
  assumes "responseCache s (''v1/'' @ path r) = None"
  shows "\<exists>new. trace (flow_state (process_request L r s))
                 = trace s @ CallGet (''v1/'' @ path r) # new
           \<and> list_all (\<lambda>ev. \<not> resolution ev) new"
    and "responseCache (flow_state (process_request L r s)) =
           (case client_get L (called_paths (trace s)) (''v1/'' @ path r) of
              Inr raw \<Rightarrow> (responseCache s)(''v1/'' @ path r \<mapsto> raw)
            | Inl response \<Rightarrow> responseCache s)"
proof -
  show "\<exists>new. trace (flow_state (process_request L r s))
                 = trace s @ CallGet (''v1/'' @ path r) # new
           \<and> list_all (\<lambda>ev. \<not> resolution ev) new"
  proof (cases "fetch L r s")
    case (Inl fl)
    from fetch_Inl(1) [OF Inl] Inl show ?thesis
      by (intro exI [of _ "[]"]) (simp add: process_request_def)
  next
    case (Inr t)
    then obtain raw c s1 where f: "fetch L r s = Inr (raw, c, s1)" by (cases t) auto
    from fetch_Inr(4) [OF f] assms have c: "\<not> c" by simp
    from fetch_Inr(1) [OF f] c have tr: "trace s1 = trace s @ [CallGet (''v1/'' @ path r)]"
      by simp
    from process_body_no_resolution [of L r raw c s1] f tr show ?thesis
      by (auto simp: process_request_def)
  qed
  show "responseCache (flow_state (process_request L r s)) =
           (case client_get L (called_paths (trace s)) (''v1/'' @ path r) of
              Inr raw \<Rightarrow> (responseCache s)(''v1/'' @ path r \<mapsto> raw)
            | Inl response \<Rightarrow> responseCache s)"
  proof (cases "fetch L r s")
    case (Inl fl)
    from fetch_Inl(3,6) [OF Inl] Inl show ?thesis
      by (auto simp: process_request_def)
  next
    case (Inr t)
    then obtain raw c s1 where f: "fetch L r s = Inr (raw, c, s1)" by (cases t) auto
    from fetch_Inr(4) [OF f] assms have c: "\<not> c" by simp
    from fetch_Inr(5,6) [OF f] c process_body_cache [of L r raw c s1] f show ?thesis
      by (simp add: process_request_def)
  qed
qed

lemma fetched_paths_append:
  "fetched_paths L earlier (xs @ ys) =
     fetched_paths L earlier xs @ fetched_paths L (earlier @ called_paths xs) ys"
proof (induction xs arbitrary: earlier)
  case Nil
  then show ?case by simp
next
  case (Cons x xs)
  then show ?case by (cases x) simp_all
qed

lemma called_paths_append: "called_paths (xs @ ys) = called_paths xs @ called_paths ys"
proof (induction xs)
  case Nil
  then show ?case by simp
next
  case (Cons x xs)
  then show ?case by (cases x) simp_all
qed

lemma fetched_paths_no_resolution:
  "list_all (\<lambda>ev. \<not> resolution ev) new \<Longrightarrow> fetched_paths L earlier new = []"
proof (induction new)
  case Nil
  then show ?case by simp
next
  case (Cons x xs)
  then show ?case by (cases x) simp_all
qed

lemma get_once_extend:
  assumes T: "get_once L T" and ev: "resolution ev"
    and new: "list_all (\<lambda>ev. \<not> resolution ev) new"
    and here: "\<And>q. (ev = CallGet q \<longrightarrow> q \<notin> set (fetched_paths L [] T))
                  \<and> (ev = CacheHit q \<longrightarrow> q \<in> set (fetched_paths L [] T))"
  shows "get_once L (T @ ev # new)"
  unfolding get_once_def
proof (intro allI impI)
  fix i q assume i: "i < length (T @ ev # new)"
  consider "i < length T" | "i = length T" | "i > length T" by linarith
  then show "((T @ ev # new) ! i = CallGet q \<longrightarrow> q \<notin> set (fetched_paths L [] (take i (T @ ev # new))))
        \<and> ((T @ ev # new) ! i = CacheHit q \<longrightarrow> q \<in> set (fetched_paths L [] (take i (T @ ev # new))))"
  proof cases
    case 1
    with T show ?thesis by (simp add: get_once_def nth_append)
  next
    case 2
    with here [of q] show ?thesis by (simp add: nth_append)
  next
    case 3
    with i have "(T @ ev # new) ! i \<in> set new"
      by (auto simp: nth_append nth_Cons split: nat.splits)
    with new have "\<not> resolution ((T @ ev # new) ! i)" by (auto simp: list_all_iff)
    then show ?thesis by auto
  qed
qed

lemma requests_loop_get_once:
  assumes "get_once L (trace s)"
    and "dom (responseCache s) = set (fetched_paths L [] (trace s))"
  shows "get_once L (trace (flow_state (requests_loop L rs s)))
    \<and> dom (responseCache (flow_state (requests_loop L rs s)))
        = set (fetched_paths L [] (trace (flow_state (requests_loop L rs s))))"
  using assms
proof (induction rs arbitrary: s)
  case Nil
  then show ?case by simp
next
  case (Cons r rs)
  let ?p = "''v1/'' @ path r"
  let ?fl = "process_request L r s"
  have step: "get_once L (trace (flow_state ?fl))
      \<and> dom (responseCache (flow_state ?fl)) = set (fetched_paths L [] (trace (flow_state ?fl)))"
  proof (cases "responseCache s ?p")
    case None
    from process_request_fresh_pass(1) [OF None, of L] obtain new where
      tr: "trace (flow_state ?fl) = trace s @ CallGet ?p # new"
      and new: "list_all (\<lambda>ev. \<not> resolution ev) new" by blast
    from None Cons.prems(2) have nf: "?p \<notin> set (fetched_paths L [] (trace s))"
      by (auto simp: domIff)
    have g: "get_once L (trace s @ CallGet ?p # new)"
      by (rule get_once_extend [OF Cons.prems(1) _ new]) (use nf in auto)
    have d: "dom (responseCache (flow_state ?fl)) = set (fetched_paths L [] (trace (flow_state ?fl)))"
      using process_request_fresh_pass(2) [OF None, of L] Cons.prems(2) tr new
      by (auto simp: fetched_paths_append fetched_paths_no_resolution split: sum.splits)
    from g d tr show ?thesis by simp
  next
    case (Some raw)
    from process_request_cached_pass(1) [OF Some, of L] obtain new where
      tr: "trace (flow_state ?fl) = trace s @ CacheHit ?p # new"
      and new: "list_all (\<lambda>ev. \<not> resolution ev) new" by blast
    from Some Cons.prems(2) have nf: "?p \<in> set (fetched_paths L [] (trace s))"
      by (auto simp: domIff)
    have g: "get_once L (trace s @ CacheHit ?p # new)"
      by (rule get_once_extend [OF Cons.prems(1) _ new]) (use nf in auto)
    have d: "dom (responseCache (flow_state ?fl)) = set (fetched_paths L [] (trace (flow_state ?fl)))"
      using process_request_cached_pass(2) [OF Some, of L] Cons.prems(2) tr new
      by (auto simp: fetched_paths_append fetched_paths_no_resolution)
    from g d tr show ?thesis by simp
  qed
  show ?case
  proof (cases ?fl)
    case (Continue s')
    with step Cons.IH [of s'] show ?thesis by simp
  next
    case (Return s' res)
    with step show ?thesis by simp
  next
    case (Throw s' e)
    with step show ?thesis by simp
  qed
qed

lemma reachable_cache:
  assumes "requests_loop L pre initial_state = Continue s"
  shows "dom (responseCache s) = set (fetched_paths L [] (trace s))"
proof -
  have "get_once L (trace initial_state)" by (simp add: get_once_def initial_state_def)
  moreover have "dom (responseCache initial_state) = set (fetched_paths L [] (trace initial_state))"
    by (simp add: initial_state_def)
  ultimately show ?thesis
    using requests_loop_get_once [of L initial_state pre] assms by simp
qed

lemma newRequest_path [simp]: "path (newRequest L r u k) = path r"
  by (simp add: newRequest_def Let_def)

lemma newRequest_selector [simp]: "selector (newRequest L r u k) = k"
  by (simp add: newRequest_def Let_def)

lemma process_body_results:
  assumes "process_body L r raw c s = Continue s'"
  shows "\<exists>new. results s' = results s @ new
           \<and> (\<forall>x\<in>set new. cachedResponse x = c \<and> path (request x) = path r)"
proof -
  from assms obtain body where body: "JSON_parse L raw = Inr body"
    by (cases "JSON_parse L raw") (simp_all add: process_body_def)
  from assms body obtain inner where inner: "nested_data body = Inr inner"
    by (cases "nested_data body") (simp_all add: process_body_def)
  from assms body inner have al: "isAllowed L inner = Inr True"
    by (cases "isAllowed L inner") (auto simp: process_body_def Let_def split: if_splits)
  from isAllowed_True_obj [OF al] obtain kvs where kvs: "inner = Some (JObj kvs)"
    by blast
  note pb = process_body_allowed [OF body inner [unfolded kvs] al [unfolded kvs], of r c s]
  show ?thesis
  proof (cases "selector r = WILDCARD L \<or> selector r = WILDCARD_UPPERCASE L")
    case True
    let ?s2 = "(log_events [GateRun True] s)\<lparr>upperCaseEnv := (selector r = WILDCARD_UPPERCASE L)\<rparr>"
    from True pb assms have "wildcard_loop L r body c (map fst kvs) ?s2 = Continue s'"
      by simp
    from wildcard_loop_Continue [OF this] show ?thesis
      by (auto simp: log_events_def dest!: set_zip_leftD)
  next
    case False
    with pb assms show ?thesis
      by (auto simp: log_events_def split: sum.splits)
  qed
qed

lemma process_request_results:
  assumes "process_request L r s = Continue s'"
  shows "\<exists>new. results s' = results s @ new
           \<and> (\<forall>x\<in>set new. cachedResponse x = (responseCache s (''v1/'' @ path r) \<noteq> None)
                            \<and> path (request x) = path r)"
proof (cases "fetch L r s")
  case (Inl fl)
  with assms fetch_Inl(2) [OF Inl] show ?thesis
    by (simp add: process_request_def)
next
  case (Inr t)
  then obtain raw c s1 where f: "fetch L r s = Inr (raw, c, s1)" by (cases t) auto
  with assms have "process_body L r raw c s1 = Continue s'"
    by (simp add: process_request_def)
  from process_body_results [OF this] fetch_Inr(2,4) [OF f] show ?thesis
    by auto
qed


subsection \<open>Auxiliary facts about a pass and about the end of a run\<close>

lemma Continue_flow_state: "is_Continue fl \<Longrightarrow> fl = Continue (flow_state fl)"
  by (cases fl) simp_all

lemma jsonata_called_paths: "list_all is_jsonata js \<Longrightarrow> called_paths js = []"
proof (induction js)
  case Nil
  then show ?case by simp
next
  case (Cons x xs)
  then show ?case by (cases x) simp_all
qed

lemma process_body_gate:
  "\<exists>new. trace (flow_state (process_body L r raw c s)) = trace s @ new
     \<and> called_paths new = []
     \<and> (new = [] \<or> new = [GateRun False]
        \<or> ((\<exists>body inner. JSON_parse L raw = Inr body \<and> nested_data body = Inr inner
                \<and> isAllowed L inner = Inr True)
           \<and> (\<exists>js. new = GateRun True # js \<and> list_all is_jsonata js)))"
proof -
  from process_body_shape [of L r raw c s] show ?thesis
  proof (elim disjE exE conjE)
    fix e assume "process_body L r raw c s = Throw s e"
    then show ?thesis by (intro exI [of _ "[]"]) simp
  next
    assume "process_body L r raw c s = Return (log_events [GateRun False] s) []"
    then show ?thesis by (intro exI [of _ "[GateRun False]"]) (simp add: log_events_def)
  next
    fix js assume nr: "\<not> is_Return (process_body L r raw c s)" and js: "list_all is_jsonata js"
      and tr: "trace (flow_state (process_body L r raw c s)) = trace s @ GateRun True # js"
    have "\<exists>body inner. JSON_parse L raw = Inr body \<and> nested_data body = Inr inner
                \<and> isAllowed L inner = Inr True"
    proof (cases "JSON_parse L raw")
      case (Inl e)
      with tr show ?thesis by (simp add: process_body_def)
    next
      case body: (Inr body)
      show ?thesis
      proof (cases "nested_data body")
        case (Inl e)
        with body tr show ?thesis by (simp add: process_body_def)
      next
        case inner: (Inr inner)
        show ?thesis
        proof (cases "isAllowed L inner")
          case (Inl e)
          with body inner tr show ?thesis by (simp add: process_body_def)
        next
          case (Inr allowed)
          show ?thesis
          proof (cases allowed)
            case False
            with Inr process_body_denied [OF body inner, of r c s] tr show ?thesis
              by (simp add: log_events_def)
          next
            case True
            with Inr body inner show ?thesis by simp
          qed
        qed
      qed
    qed
    with tr js show ?thesis
      by (intro exI [of _ "GateRun True # js"]) (simp add: jsonata_called_paths)
  qed
qed

lemma snd_finish_Throw [simp]: "snd (finish (Throw s e)) = Inl e"
  by (simp add: finish_def)

lemma requests_loop_reach:
  assumes "requests_loop L pre initial_state = Continue s"
  shows "getSecrets L (pre @ r # post) p =
     finish (case process_request L r s of
               Continue s' \<Rightarrow> requests_loop L post s'
             | Return s' res \<Rightarrow> Return s' res
             | Throw s' e \<Rightarrow> Throw s' e)"
  using assms by (simp add: getSecrets_finish requests_loop_append)

subsection \<open>Wildcard requests\<close>

lemma quote_escape: "''data.data.'' @ quote_selector (escape_key k) = wildcard_selector k"
  by (simp add: quote_selector_def escape_key_def wildcard_selector_def)

lemma wildcard_loop_success:
  assumes "nested_data body = Inr (Some (JObj kvs))"
    and "\<forall>k\<in>set (filter (\<lambda>k. \<not> reserved_key k) keys).
           snd (selectData L body (wildcard_selector k)) = Inr (v k)"
  shows "\<exists>s'. wildcard_loop L r body c keys s = Continue s'
           \<and> results s' = results s @
               map (\<lambda>k. \<lparr>request = newRequest L r (upperCaseEnv s) k, value = v k,
                          cachedResponse = c\<rparr>)
                 (filter (\<lambda>k. \<not> reserved_key k) keys)"
  using assms(2)
proof (induction keys arbitrary: s)
  case Nil
  then show ?case by simp
next
  case (Cons key keys)
  show ?case
  proof (cases "reserved_key key")
    case True
    with Cons.prems have "\<forall>k\<in>set (filter (\<lambda>k. \<not> reserved_key k) keys).
           snd (selectData L body (wildcard_selector k)) = Inr (v k)" by simp
    from Cons.IH [OF this, of s] True show ?thesis by simp
  next
    case False
    let ?nr = "newRequest L r (upperCaseEnv s) key"
    let ?sd = "selectData L body (wildcard_selector key)"
    let ?res = "results s @ [\<lparr>request = ?nr, value = v key, cachedResponse = c\<rparr>]"
    let ?s1 = "log_events (fst ?sd) (s\<lparr>results := ?res\<rparr>)"
    from Cons.prems False have vk: "snd ?sd = Inr (v key)" by simp
    have sa: "selectAndAppendResults L (escape_key key) body c ?nr (results s)
                = (fst ?sd, Inr ?res)"
      unfolding selectAndAppendResults_nested [OF assms(1)] quote_escape by (simp add: vk)
    from Cons.prems have rest: "\<forall>k\<in>set (filter (\<lambda>k. \<not> reserved_key k) keys).
           snd (selectData L body (wildcard_selector k)) = Inr (v k)" by simp
    from Cons.IH [OF rest, of ?s1] obtain s' where
      "wildcard_loop L r body c keys ?s1 = Continue s'"
      "results s' = results ?s1 @
               map (\<lambda>k. \<lparr>request = newRequest L r (upperCaseEnv ?s1) k, value = v k,
                          cachedResponse = c\<rparr>)
                 (filter (\<lambda>k. \<not> reserved_key k) keys)" by blast
    with False sa show ?thesis by (simp add: log_events_def)
  qed
qed

lemma process_request_Return: "process_request L r s = Return s' res \<Longrightarrow> res = []"
  using process_request_shape [of L r s] by auto

lemma requests_loop_results:
  "case requests_loop L rs s of
     Continue s' \<Rightarrow> (\<exists>more. results s' = results s @ more)
   | Return s' res \<Rightarrow> res = []
   | Throw s' e \<Rightarrow> True"
proof (induction rs arbitrary: s)
  case Nil
  then show ?case by simp
next
  case (Cons r rs)
  show ?case
  proof (cases "process_request L r s")
    case (Continue s1)
    from process_request_results [OF Continue] obtain new where
      new: "results s1 = results s @ new" by blast
    from Cons.IH [of s1] Continue new show ?thesis
      by (cases "requests_loop L rs s1") auto
  next
    case (Return s1 res)
    with process_request_Return [OF Return] show ?thesis by simp
  next
    case (Throw s1 e)
    then show ?thesis by simp
  qed
qed


lemma wildcard_loop_selectors:
  assumes "nested_data body = Inr (Some (JObj kvs))"
  shows "\<exists>js. trace (flow_state (wildcard_loop L r body c keys s)) = trace s @ js
     \<and> (\<forall>ev\<in>set js. \<exists>k\<in>set keys. \<not> reserved_key k
            \<and> (ev = Jsonata (''data.data.'' @ quote_selector (escape_key k))
               \<or> ev = Jsonata (''data.'' @ ''data.data.'' @ quote_selector (escape_key k))))"
proof (induction keys arbitrary: s)
  case Nil
  then show ?case by simp
next
  case (Cons key keys)
  show ?case
  proof (cases "reserved_key key")
    case True
    from Cons.IH [of s] obtain js where
      "trace (flow_state (wildcard_loop L r body c keys s)) = trace s @ js"
      "\<forall>ev\<in>set js. \<exists>k\<in>set keys. \<not> reserved_key k
            \<and> (ev = Jsonata (''data.data.'' @ quote_selector (escape_key k))
               \<or> ev = Jsonata (''data.'' @ ''data.data.'' @ quote_selector (escape_key k)))"
      by blast
    with True show ?thesis by (intro exI [of _ js]) auto
  next
    case False
    let ?nr = "newRequest L r (upperCaseEnv s) key"
    let ?sel = "''data.data.'' @ quote_selector (escape_key key)"
    let ?sd = "selectData L body ?sel"
    have sa: "selectAndAppendResults L (escape_key key) body c ?nr (results s)
                = (fst ?sd, case snd ?sd of Inl e \<Rightarrow> Inl e
                     | Inr v \<Rightarrow> Inr (results s @ [\<lparr>request = ?nr, value = v, cachedResponse = c\<rparr>]))"
      by (rule selectAndAppendResults_nested [OF assms])
    have evs: "\<forall>ev\<in>set (fst ?sd). ev = Jsonata ?sel \<or> ev = Jsonata (''data.'' @ ?sel)"
      using selectData_events [of L body ?sel] by auto
    show ?thesis
    proof (cases "snd ?sd")
      case (Inl e)
      with False sa have "trace (flow_state (wildcard_loop L r body c (key # keys) s))
          = trace s @ fst ?sd" by (simp add: log_events_def)
      with evs False show ?thesis by (intro exI [of _ "fst ?sd"]) auto
    next
      case (Inr v)
      let ?s1 = "log_events (fst ?sd)
                   (s\<lparr>results := results s @ [\<lparr>request = ?nr, value = v, cachedResponse = c\<rparr>]\<rparr>)"
      from Cons.IH [of ?s1] obtain js where js:
        "trace (flow_state (wildcard_loop L r body c keys ?s1)) = trace ?s1 @ js"
        "\<forall>ev\<in>set js. \<exists>k\<in>set keys. \<not> reserved_key k
            \<and> (ev = Jsonata (''data.data.'' @ quote_selector (escape_key k))
               \<or> ev = Jsonata (''data.'' @ ''data.data.'' @ quote_selector (escape_key k)))"
        by blast
      from False sa Inr js(1) have "trace (flow_state (wildcard_loop L r body c (key # keys) s))
          = trace s @ (fst ?sd @ js)" by (simp add: log_events_def)
      moreover from evs js(2) False have "\<forall>ev\<in>set (fst ?sd @ js). \<exists>k\<in>set (key # keys).
            \<not> reserved_key k
            \<and> (ev = Jsonata (''data.data.'' @ quote_selector (escape_key k))
               \<or> ev = Jsonata (''data.'' @ ''data.data.'' @ quote_selector (escape_key k)))"
        by auto
      ultimately show ?thesis by (intro exI [of _ "fst ?sd @ js"]) simp
    qed
  qed
qed

lemma process_request_Return_trace:
  assumes "process_request L r s = Return s' res"
  shows "res = [] \<and> GateRun False \<in> set (trace s')"
proof -
  from process_request_shape [of L r s] obtain ev new where
    tr: "trace (flow_state (process_request L r s)) = trace s @ ev # new"
    and sh: "(new = [] \<and> \<not> is_Return (process_request L r s))
        \<or> (new = [GateRun False] \<and> (\<exists>s'. process_request L r s = Return s' []))
        \<or> (\<not> is_Return (process_request L r s)
           \<and> (\<exists>js. list_all is_jsonata js \<and> new = GateRun True # js))"
    by blast
  from sh assms have "new = [GateRun False]" and "res = []" by auto
  with tr assms show ?thesis by simp
qed

lemma requests_loop_Return:
  "requests_loop L rs s = Return s' res \<Longrightarrow> res = [] \<and> GateRun False \<in> set (trace s')"
proof (induction rs arbitrary: s)
  case Nil
  then show ?case by simp
next
  case (Cons r rs)
  show ?case
  proof (cases "process_request L r s")
    case (Continue s1)
    with Cons.prems have "requests_loop L rs s1 = Return s' res" by simp
    then show ?thesis by (rule Cons.IH)
  next
    case (Return s1 res1)
    with Cons.prems have "s1 = s'" "res1 = res" by simp_all
    with Return process_request_Return_trace [of L r s s' res] show ?thesis by simp
  next
    case (Throw s1 e)
    with Cons.prems show ?thesis by simp
  qed
qed

section \<open>The claims\<close>

subsection \<open>Denial by the authorization gate\<close>

text \<open>
  C1. Whenever the authorization gate denies the payload of a request in a run of
  \<open>getSecrets\<close>, the function returns the empty list: not the results accumulated for
  the earlier requests, and not an error. Said of the record of the run: a run in which
  \<open>isAllowed\<close> returned \<open>false\<close> returns \<open>[]\<close>. Said of the request: if the loop reaches
  a request and the gate denies the inner data of its body, fetched or cached, then the
  run returns \<open>[]\<close> whatever the results so far and whatever the requests after it.
\<close>

theorem getSecrets_denied_empty:
  "(GateRun False \<in> set (fst (getSecrets L rs p)) \<longrightarrow> snd (getSecrets L rs p) = Inr [])
   \<and> (requests_loop L pre initial_state = Continue s \<and> fetch L r s = Inr (raw, c, s1)
        \<and> JSON_parse L raw = Inr body \<and> nested_data body = Inr inner
        \<and> isAllowed L inner = Inr False
      \<longrightarrow> snd (getSecrets L (pre @ r # post) p) = Inr [])"
proof (intro conjI impI)
  assume a: "GateRun False \<in> set (fst (getSecrets L rs p))"
  have "GateRun False \<notin> set (trace initial_state)" by (simp add: initial_state_def)
  from requests_loop_denial [OF this, of L rs] a
  show "snd (getSecrets L rs p) = Inr []"
    by (cases "requests_loop L rs initial_state") (simp_all add: getSecrets_def)
next
  assume a: "requests_loop L pre initial_state = Continue s \<and> fetch L r s = Inr (raw, c, s1)
        \<and> JSON_parse L raw = Inr body \<and> nested_data body = Inr inner
        \<and> isAllowed L inner = Inr False"
  then have "process_request L r s = Return (log_events [GateRun False] s1) []"
    by (simp add: process_request_def process_body_denied)
  with a show "snd (getSecrets L (pre @ r # post) p) = Inr []"
    by (simp add: getSecrets_def requests_loop_append)
qed

theorem getSecrets_denied_empty_witness:
  "GateRun False \<in> set (fst (getSecrets (example_lib False) [request_a, request_denied, request_b] False))
   \<and> results after_request_a \<noteq> []
   \<and> snd (getSecrets (example_lib False) ([request_a] @ request_denied # [request_b]) False) = Inr []"
proof -
  let ?L = "example_lib False"
  let ?p = "''v1/secret/denied''"
  let ?raw = "example_stringify payload_denied"
  let ?s1 = "(log_events [CallGet ?p] after_request_a)
               \<lparr>responseCache := (responseCache (log_events [CallGet ?p] after_request_a))(?p \<mapsto> ?raw)\<rparr>"
  let ?inner = "Some (JObj ((''a'', JStr ''9'') # example_attributes ''other-*''))"
  have h1: "GateRun False \<in> set (fst (getSecrets ?L [request_a, request_denied, request_b] False))"
    by code_simp
  have h2: "results after_request_a \<noteq> []" by code_simp
  have "is_Continue (requests_loop ?L [request_a] initial_state)" by code_simp
  then have pre: "requests_loop ?L [request_a] initial_state = Continue after_request_a"
    unfolding after_request_a_def by (rule Continue_flow_state)
  have pth: "path request_denied = ''secret/denied''"
    by (simp add: request_denied_def req_def)
  have c1: "responseCache after_request_a ?p = None" by code_simp
  have c2: "client_get ?L (called_paths (trace after_request_a)) ?p = Inr ?raw" by code_simp
  have f: "fetch ?L request_denied after_request_a = Inr (?raw, False, ?s1)"
    by (simp add: fetch_def Let_def pth c1 c2)
  have p: "JSON_parse ?L ?raw = Inr payload_denied" by code_simp
  have n: "nested_data payload_denied = Inr ?inner" by code_simp
  have a: "isAllowed ?L ?inner = Inr False" by code_simp
  from getSecrets_denied_empty [of ?L "[request_a, request_denied, request_b]" False
      "[request_a]" after_request_a request_denied ?raw False ?s1 payload_denied ?inner "[request_b]"]
    h1 h2 pre f p n a
  show ?thesis by simp
qed


subsection \<open>Payloads of the flatter shape\<close>

text \<open>
  C3, as the code behaves. The claim is that a body of the flatter shape
  \<open>{"data": {...}}\<close> is processed without failure. The code calls
  \<open>isAllowed(body.data.data)\<close>, and on a body whose \<open>data\<close> object has no \<open>data\<close> field
  the argument is \<open>undefined\<close>, so that \<open>'x-k8s-podname' in data\<close> throws a TypeError:
  every run that reaches a request with such a body ends with this error.
\<close>

theorem flat_payload_throws:
  assumes "requests_loop L pre initial_state = Continue s"
    and "fetch L r s = Inr (raw, c, s1)"
    and "JSON_parse L raw = Inr (JObj outer)"
    and "map_of outer ''data'' = Some (JObj kvs)"
    and "map_of kvs ''data'' = None"
  shows "snd (getSecrets L (pre @ r # post) p) = Inl TypeError"
proof -
  from assms(4,5) have "nested_data (JObj outer) = Inr None"
    by (simp add: nested_data_def)
  with assms(2,3) have "process_request L r s = Throw s1 TypeError"
    by (simp add: process_request_def process_body_def isAllowed_def)
  then show ?thesis by (simp add: requests_loop_reach [OF assms(1)])
qed

theorem flat_payload_throws_witness:
  "JSON_parse (example_lib False) (example_stringify payload_flat)
     = Inr (JObj [(''data'', JObj flat_fields)])
   \<and> isAllowed (example_lib False) (Some (JObj flat_fields)) = Inr True
   \<and> snd (getSecrets (example_lib False) ([] @ request_flat # []) False) = Inl TypeError"
proof -
  let ?L = "example_lib False"
  let ?p = "''v1/secret/flat''"
  let ?raw = "example_stringify payload_flat"
  let ?s1 = "(log_events [CallGet ?p] initial_state)
               \<lparr>responseCache := (responseCache (log_events [CallGet ?p] initial_state))(?p \<mapsto> ?raw)\<rparr>"
  have pre: "requests_loop ?L [] initial_state = Continue initial_state" by simp
  have pth: "path request_flat = ''secret/flat''" by code_simp
  have c1: "responseCache initial_state ?p = None" by code_simp
  have c2: "client_get ?L (called_paths (trace initial_state)) ?p = Inr ?raw" by code_simp
  have f: "fetch ?L request_flat initial_state = Inr (?raw, False, ?s1)"
    by (simp add: fetch_def Let_def pth c1 c2)
  have ps: "JSON_parse ?L ?raw = Inr (JObj [(''data'', JObj flat_fields)])"
    by code_simp
  have m1: "map_of [(''data'', JObj flat_fields)] ''data'' = Some (JObj flat_fields)" by simp
  have m2: "map_of flat_fields ''data'' = None" by code_simp
  have al: "isAllowed ?L (Some (JObj flat_fields)) = Inr True" by code_simp
  from flat_payload_throws [OF pre f ps m1 m2, of "[]" False] ps al
  show ?thesis by simp
qed

subsection \<open>The fallback of selectData\<close>

text \<open>
  C4, as the code behaves. The claim is that \<open>selectData\<close> fails with the error that names
  the selector whenever the evaluation still yields \<open>undefined\<close> after the fallback. In
  the code the check for an empty result is the \<open>else\<close> branch of the fallback, so it is
  not made again after the fallback has run: when both evaluations yield \<open>undefined\<close>,
  \<open>result.startsWith\<close> throws a TypeError instead.
\<close>

theorem selectData_fallback_undefined:
  assumes "jsonata_evaluate L sel (JObj kvs) = Inr None"
    and "jsonata_ast L sel = (''path'', 1) \<or> fst (jsonata_ast L sel) = ''string''"
    and "sel \<noteq> ''data''"
    and "map_of kvs ''data'' \<noteq> None"
    and "jsonata_evaluate L (''data.'' @ sel) (JObj kvs) = Inr None"
  shows "selectData L (JObj kvs) sel = ([Jsonata sel, Jsonata (''data.'' @ sel)], Inl TypeError)"
proof -
  from assms(4) have "js_in ''data'' (Some (JObj kvs)) = Inr True"
    unfolding js_in_obj by simp
  with assms(2,3) have "compat_condition L (JObj kvs) sel None = Inr True"
    by (auto simp: compat_condition_def)
  with assms(1,5) show ?thesis
    by (simp add: selectData_def unwrap_result_def)
qed

theorem selectData_fallback_undefined_witness:
  "jsonata_evaluate (example_lib False) ''baz'' payload_flat = Inr None
   \<and> jsonata_evaluate (example_lib False) ''data.baz'' payload_flat = Inr None
   \<and> selectData (example_lib False) payload_flat ''baz''
       = ([Jsonata ''baz'', Jsonata ''data.baz''], Inl TypeError)"
proof -
  let ?L = "example_lib False"
  let ?kvs = "[(''data'', JObj flat_fields)]"
  have pf: "payload_flat = JObj ?kvs" by (simp add: payload_flat_def)
  have e1: "jsonata_evaluate ?L ''baz'' (JObj ?kvs) = Inr None" by code_simp
  have a: "jsonata_ast ?L ''baz'' = (''path'', 1) \<or> fst (jsonata_ast ?L ''baz'') = ''string''"
    by code_simp
  have n: "''baz'' \<noteq> ''data''" by simp
  have m: "map_of ?kvs ''data'' \<noteq> None" by simp
  have e2: "jsonata_evaluate ?L (''data.'' @ ''baz'') (JObj ?kvs) = Inr None" by code_simp
  from selectData_fallback_undefined [OF e1 a n m e2] e1 e2 pf
  show ?thesis by simp
qed

subsection \<open>The response cache\<close>

text \<open>
  C5, as stated, fails: a path whose GET call is answered with 404 is not stored in the
  cache, and with the ignore-not-found policy enabled the next request for the same path
  calls the transport again. Two requests for such a path make two GET calls.
\<close>

theorem repeated_not_found_counterexample:
  "called_paths (fst (getSecrets (example_lib True) [request_gone, request_gone] False))
     = [''v1/secret/gone'', ''v1/secret/gone'']"
  by code_simp

text \<open>
  C5, amended. In every run, a GET call is made for a path only while no GET call for it
  has returned a body, and a body is taken from the cache only after one has; so at most
  one GET call per path returns a body. The results of a pass, those expanded from a
  wildcard request included, carry \<open>cachedResponse = true\<close> exactly when a GET call for
  the path of the request has returned a body earlier in the run.
\<close>

theorem getSecrets_fetches_once:
  "get_once L (fst (getSecrets L rs p))
   \<and> (requests_loop L pre initial_state = Continue s \<and> process_request L r s = Continue s'
      \<longrightarrow> (\<exists>new. results s' = results s @ new
             \<and> (\<forall>x\<in>set new. cachedResponse x
                    = (''v1/'' @ path r \<in> set (fetched_paths L [] (trace s))))))"
proof (intro conjI impI)
  have "get_once L (trace initial_state)" by (simp add: get_once_def initial_state_def)
  moreover have "dom (responseCache initial_state) = set (fetched_paths L [] (trace initial_state))"
    by (simp add: initial_state_def)
  ultimately show "get_once L (fst (getSecrets L rs p))"
    using requests_loop_get_once [of L initial_state rs]
    by (simp add: getSecrets_finish fst_finish)
next
  assume a: "requests_loop L pre initial_state = Continue s \<and> process_request L r s = Continue s'"
  then have "requests_loop L pre initial_state = Continue s" by simp
  then have d: "dom (responseCache s) = set (fetched_paths L [] (trace s))"
    by (rule reachable_cache)
  from a process_request_results [of L r s s'] obtain new where
    new: "results s' = results s @ new"
      "\<forall>x\<in>set new. cachedResponse x = (responseCache s (''v1/'' @ path r) \<noteq> None)"
    by auto
  have "(responseCache s (''v1/'' @ path r) \<noteq> None)
          = (''v1/'' @ path r \<in> set (fetched_paths L [] (trace s)))"
    using d by (auto simp: domIff)
  with new show "\<exists>new. results s' = results s @ new
             \<and> (\<forall>x\<in>set new. cachedResponse x
                    = (''v1/'' @ path r \<in> set (fetched_paths L [] (trace s))))"
    by auto
qed

theorem getSecrets_fetches_once_witness:
  "get_once (example_lib False) (fst (getSecrets (example_lib False) [request_a, request_all] False))
   \<and> fetched_paths (example_lib False) [] (trace after_request_a) = [''v1/secret/app'']
   \<and> map cachedResponse
        (results (flow_state (process_request (example_lib False) request_all after_request_a)))
       = [False, True, True, True]"
proof -
  let ?L = "example_lib False"
  let ?fl = "process_request ?L request_all after_request_a"
  have "is_Continue (requests_loop ?L [request_a] initial_state)" by code_simp
  then have pre: "requests_loop ?L [request_a] initial_state = Continue after_request_a"
    unfolding after_request_a_def by (rule Continue_flow_state)
  have "is_Continue ?fl" by code_simp
  then have st: "?fl = Continue (flow_state ?fl)" by (rule Continue_flow_state)
  have f: "fetched_paths ?L [] (trace after_request_a) = [''v1/secret/app'']" by code_simp
  have m: "map cachedResponse (results (flow_state ?fl)) = [False, True, True, True]"
    by code_simp
  from getSecrets_fetches_once [of ?L "[request_a, request_all]" False "[request_a]"
      after_request_a request_all "flow_state ?fl"] pre st f m
  show ?thesis by simp
qed

subsection \<open>Authorization of cached bodies\<close>

text \<open>
  C6. A body served from the response cache is authorized like a fetched one. In the
  record of every run, a selector is handed to jsonata only after the gate has returned
  \<open>true\<close> since the last body was resolved, from the transport or from the cache. And a
  pass whose body is in the cache makes no GET call and does one of three things: it
  stops before the gate returns, it records the verdict \<open>false\<close> and nothing more, or
  the inner data of the cached body is allowed by the gate, the verdict \<open>true\<close> is
  recorded and only then selectors are evaluated.
\<close>

theorem cached_body_gated:
  "gated False (fst (getSecrets L rs p))
   \<and> (responseCache s (''v1/'' @ path r) = Some raw \<longrightarrow>
       (\<exists>new. trace (flow_state (process_request L r s))
                 = trace s @ CacheHit (''v1/'' @ path r) # new
          \<and> called_paths new = []
          \<and> (new = [] \<or> new = [GateRun False]
             \<or> ((\<exists>body inner. JSON_parse L raw = Inr body \<and> nested_data body = Inr inner
                     \<and> isAllowed L inner = Inr True)
                \<and> (\<exists>js. new = GateRun True # js \<and> list_all is_jsonata js)))))"
proof (intro conjI impI)
  show "gated False (fst (getSecrets L rs p))" by (rule getSecrets_gated)
next
  assume c: "responseCache s (''v1/'' @ path r) = Some raw"
  let ?s1 = "log_events [CacheHit (''v1/'' @ path r)] s"
  have pr: "process_request L r s = process_body L r raw True ?s1"
    using fetch_cached [OF c] by (simp add: process_request_def)
  from process_body_gate [of L r raw True ?s1] pr
  show "\<exists>new. trace (flow_state (process_request L r s))
                 = trace s @ CacheHit (''v1/'' @ path r) # new
          \<and> called_paths new = []
          \<and> (new = [] \<or> new = [GateRun False]
             \<or> ((\<exists>body inner. JSON_parse L raw = Inr body \<and> nested_data body = Inr inner
                     \<and> isAllowed L inner = Inr True)
                \<and> (\<exists>js. new = GateRun True # js \<and> list_all is_jsonata js)))"
    by (simp add: log_events_def)
qed

theorem cached_body_gated_witness:
  "responseCache after_request_a (''v1/'' @ path request_b) = Some (example_stringify payload_app)
   \<and> fst (getSecrets (example_lib False) [request_a, request_b] False)
       = [CallGet ''v1/secret/app'', GateRun True, Jsonata (''data.data.'' @ quote_selector ''a''),
          CacheHit ''v1/secret/app'', GateRun True, Jsonata (''data.data.'' @ quote_selector ''b'')]
   \<and> gated False (fst (getSecrets (example_lib False) [request_a, request_b] False))
   \<and> (\<exists>new. trace (flow_state (process_request (example_lib False) request_b after_request_a))
                 = trace after_request_a @ CacheHit (''v1/'' @ path request_b) # new
          \<and> called_paths new = [])"
proof -
  have h: "responseCache after_request_a (''v1/'' @ path request_b)
             = Some (example_stringify payload_app)" by code_simp
  have t: "fst (getSecrets (example_lib False) [request_a, request_b] False)
       = [CallGet ''v1/secret/app'', GateRun True, Jsonata (''data.data.'' @ quote_selector ''a''),
          CacheHit ''v1/secret/app'', GateRun True, Jsonata (''data.data.'' @ quote_selector ''b'')]"
    by code_simp
  from cached_body_gated [of "example_lib False" "[request_a, request_b]" False after_request_a
      request_b "example_stringify payload_app"] h t
  show ?thesis by auto
qed


subsection \<open>Failures of the transport\<close>

text \<open>
  C7. When the loop reaches a request whose path is not in the cache and the GET call
  fails: with status 404 and the ignore-not-found flag off, \<open>getSecrets\<close> throws an error
  whose message contains the path of the request between double quotes; with status 404
  and the flag on, the pass ends with no result added and the run goes on with the next
  request; with any other status, or no response at all, \<open>getSecrets\<close> throws the
  transport's error and returns no results.
\<close>

theorem not_found_policy:
  assumes "requests_loop L pre initial_state = Continue s"
    and "responseCache s (''v1/'' @ path r) = None"
    and "client_get L (called_paths (trace s)) (''v1/'' @ path r) = Inl response"
  shows "(\<forall>b. response = Some (404, b) \<and> \<not> ignoreNotFound L \<longrightarrow>
            snd (getSecrets L (pre @ r # post) p)
              = Inl (Error (''Unable to retrieve result for '' @ [dquote] @ path r @ [dquote]
                              @ '' because it was not found: '' @ trim L b)))
       \<and> (\<forall>b. response = Some (404, b) \<and> ignoreNotFound L \<longrightarrow>
            process_request L r s = Continue (log_events [CallGet (''v1/'' @ path r)] s)
            \<and> results (log_events [CallGet (''v1/'' @ path r)] s) = results s
            \<and> getSecrets L (pre @ r # post) p
                = finish (requests_loop L post (log_events [CallGet (''v1/'' @ path r)] s)))
       \<and> ((\<forall>b. response \<noteq> Some (404, b)) \<longrightarrow>
            snd (getSecrets L (pre @ r # post) p) = Inl (RequestError response))"
proof (intro conjI allI impI)
  fix b assume "response = Some (404, b) \<and> \<not> ignoreNotFound L"
  with assms(2,3) have "process_request L r s
      = Throw (log_events [CallGet (''v1/'' @ path r)] s) (Error (notFoundMsg L (path r) b))"
    by (simp add: process_request_def fetch_def)
  then show "snd (getSecrets L (pre @ r # post) p)
              = Inl (Error (''Unable to retrieve result for '' @ [dquote] @ path r @ [dquote]
                              @ '' because it was not found: '' @ trim L b))"
    by (simp add: requests_loop_reach [OF assms(1)] notFoundMsg_def)
next
  fix b assume a: "response = Some (404, b) \<and> ignoreNotFound L"
  with assms(2,3) show pr: "process_request L r s = Continue (log_events [CallGet (''v1/'' @ path r)] s)"
    by (simp add: process_request_def fetch_def)
  show "results (log_events [CallGet (''v1/'' @ path r)] s) = results s"
    by (simp add: log_events_def)
  from pr show "getSecrets L (pre @ r # post) p
                = finish (requests_loop L post (log_events [CallGet (''v1/'' @ path r)] s))"
    by (simp add: requests_loop_reach [OF assms(1)])
next
  assume a: "\<forall>b. response \<noteq> Some (404, b)"
  have "process_request L r s
      = Throw (log_events [CallGet (''v1/'' @ path r)] s) (RequestError response)"
  proof (cases response)
    case None
    with assms(2,3) show ?thesis by (simp add: process_request_def fetch_def)
  next
    case (Some sb)
    obtain st b where sb: "sb = (st, b)" by (cases sb)
    with a Some have "st \<noteq> 404" by auto
    with assms(2,3) Some sb show ?thesis by (simp add: process_request_def fetch_def)
  qed
  then show "snd (getSecrets L (pre @ r # post) p) = Inl (RequestError response)"
    by (simp add: requests_loop_reach [OF assms(1)])
qed

theorem not_found_policy_witness:
  "snd (getSecrets (example_lib False) ([request_a] @ request_gone # [request_b]) False)
     = Inl (Error (''Unable to retrieve result for '' @ [dquote] @ ''secret/gone'' @ [dquote]
                     @ '' because it was not found: no such secret''))
   \<and> snd (getSecrets (example_lib True) ([request_a] @ request_gone # [request_b]) False)
     = Inr [\<lparr>request = request_a, value = JStr ''1'', cachedResponse = False\<rparr>,
            \<lparr>request = request_b, value = JStr ''2'', cachedResponse = True\<rparr>]
   \<and> snd (getSecrets (example_lib False) ([request_a] @ request_down # [request_b]) False)
     = Inl (RequestError (Some (500, ''internal error'')))"
proof -
  let ?off = "example_lib False" and ?on = "example_lib True"
  let ?s = "flow_state (requests_loop ?off [request_a] initial_state)"
  let ?t = "flow_state (requests_loop ?on [request_a] initial_state)"
  have "is_Continue (requests_loop ?off [request_a] initial_state)" by code_simp
  then have pre1: "requests_loop ?off [request_a] initial_state = Continue ?s"
    by (rule Continue_flow_state)
  have "is_Continue (requests_loop ?on [request_a] initial_state)" by code_simp
  then have pre2: "requests_loop ?on [request_a] initial_state = Continue ?t"
    by (rule Continue_flow_state)
  have c1: "responseCache ?s (''v1/'' @ path request_gone) = None" by code_simp
  have g1: "client_get ?off (called_paths (trace ?s)) (''v1/'' @ path request_gone)
              = Inl (Some (404, ''no such secret '' @ [CHR 0x0A]))" by code_simp
  have c2: "responseCache ?t (''v1/'' @ path request_gone) = None" by code_simp
  have g2: "client_get ?on (called_paths (trace ?t)) (''v1/'' @ path request_gone)
              = Inl (Some (404, ''no such secret '' @ [CHR 0x0A]))" by code_simp
  have c3: "responseCache ?s (''v1/'' @ path request_down) = None" by code_simp
  have g3: "client_get ?off (called_paths (trace ?s)) (''v1/'' @ path request_down)
              = Inl (Some (500, ''internal error''))" by code_simp
  have off: "\<not> ignoreNotFound ?off" by code_simp
  have on: "ignoreNotFound ?on" by code_simp
  have tr: "trim ?off (''no such secret '' @ [CHR 0x0A]) = ''no such secret''" by code_simp
  have pth: "path request_gone = ''secret/gone''" by code_simp
  have rest: "snd (finish (requests_loop ?on [request_b]
                 (log_events [CallGet (''v1/'' @ path request_gone)] ?t)))
     = Inr [\<lparr>request = request_a, value = JStr ''1'', cachedResponse = False\<rparr>,
            \<lparr>request = request_b, value = JStr ''2'', cachedResponse = True\<rparr>]"
    by code_simp
  have "snd (getSecrets ?off ([request_a] @ request_gone # [request_b]) False)
     = Inl (Error (''Unable to retrieve result for '' @ [dquote] @ ''secret/gone'' @ [dquote]
                     @ '' because it was not found: no such secret''))"
    using not_found_policy [OF pre1 c1 g1, of "[request_b]" False] off tr pth by simp
  moreover have "snd (getSecrets ?on ([request_a] @ request_gone # [request_b]) False)
     = Inr [\<lparr>request = request_a, value = JStr ''1'', cachedResponse = False\<rparr>,
            \<lparr>request = request_b, value = JStr ''2'', cachedResponse = True\<rparr>]"
    using not_found_policy [OF pre2 c2 g2, of "[request_b]" False] on rest by simp
  moreover have "snd (getSecrets ?off ([request_a] @ request_down # [request_b]) False)
     = Inl (RequestError (Some (500, ''internal error'')))"
    using not_found_policy [OF pre1 c3 g3, of "[request_b]" False] by simp
  ultimately show ?thesis by simp
qed


subsection \<open>Expansion of a wildcard request\<close>

text \<open>
  C8, as stated, fails. The selector built for a key without a dot is the key between
  double quotes, as it is, so for a key that holds a double quote jsonata is handed a
  selector it cannot parse, and the run ends with that error: an authorized payload,
  and no result for any of its keys.
\<close>

theorem wildcard_quote_key_counterexample:
  "isAllowed (example_lib False) (Some (JObj odd_fields)) = Inr True
   \<and> nested_data payload_odd = Inr (Some (JObj odd_fields))
   \<and> map fst odd_fields
       = [''ok'', ''we'' @ [dquote] @ ''ird'', ''x-k8s-podname'', ''x-k8s-namespace'',
          ''x-k8s-serviceaccount'', ''x-github-actor'', ''x-github-repo'']
   \<and> getSecrets (example_lib False) [request_odd] False
       = ([CallGet ''v1/secret/odd'', GateRun True,
           Jsonata (''data.data.'' @ [dquote] @ ''ok'' @ [dquote]),
           Jsonata (''data.data.'' @ [dquote] @ ''we'' @ [dquote] @ ''ird'' @ [dquote])],
          Inl (LibraryError ''jsonata: syntax error''))"
  by code_simp

text \<open>
  C8, amended. When the loop reaches a wildcard request whose payload the gate allows,
  and the selection succeeds for every key of the inner data object that starts with
  neither \<open>x-k8s-\<close> nor \<open>x-github-\<close>, then \<open>getSecrets\<close> on the requests up to and
  including the wildcard request returns the results of the earlier requests followed
  by exactly one result for each such key, in the order in which the keys are
  enumerated, and none for a reserved key; and whatever list a longer batch returns is
  either empty, after a denial recorded in the run, or continues this list.
\<close>

theorem wildcard_expansion:
  assumes "requests_loop L pre initial_state = Continue s"
    and "selector r = WILDCARD L \<or> selector r = WILDCARD_UPPERCASE L"
    and "fetch L r s = Inr (raw, c, s1)"
    and "JSON_parse L raw = Inr body"
    and "nested_data body = Inr inner"
    and "isAllowed L inner = Inr True"
    and "\<forall>k\<in>set (filter (\<lambda>k. \<not> reserved_key k) (for_in_keys inner)).
           snd (selectData L body (wildcard_selector k)) = Inr (v k)"
  shows "snd (getSecrets L pre p) = Inr (results s)
     \<and> snd (getSecrets L (pre @ [r]) p)
         = Inr (results s @
               map (\<lambda>k. \<lparr>request = newRequest L r (selector r = WILDCARD_UPPERCASE L) k,
                          value = v k, cachedResponse = c\<rparr>)
                 (filter (\<lambda>k. \<not> (startsWith k ''x-k8s-'' \<or> startsWith k ''x-github-''))
                    (for_in_keys inner)))
     \<and> (\<forall>out. snd (getSecrets L (pre @ r # post) p) = Inr out \<longrightarrow>
            (out = [] \<and> GateRun False \<in> set (fst (getSecrets L (pre @ r # post) p)))
            \<or> (\<exists>more. out = results s @
                   map (\<lambda>k. \<lparr>request = newRequest L r (selector r = WILDCARD_UPPERCASE L) k,
                              value = v k, cachedResponse = c\<rparr>)
                     (filter (\<lambda>k. \<not> (startsWith k ''x-k8s-'' \<or> startsWith k ''x-github-''))
                        (for_in_keys inner)) @ more))"
proof -
  let ?E = "map (\<lambda>k. \<lparr>request = newRequest L r (selector r = WILDCARD_UPPERCASE L) k,
                          value = v k, cachedResponse = c\<rparr>)
                 (filter (\<lambda>k. \<not> (startsWith k ''x-k8s-'' \<or> startsWith k ''x-github-''))
                    (for_in_keys inner))"
  from isAllowed_True_obj [OF assms(6)] obtain kvs where kvs: "inner = Some (JObj kvs)"
    by blast
  let ?s2 = "(log_events [GateRun True] s1)\<lparr>upperCaseEnv := (selector r = WILDCARD_UPPERCASE L)\<rparr>"
  have pb: "process_request L r s = wildcard_loop L r body c (map fst kvs) ?s2"
    using process_body_allowed [OF assms(4) assms(5) [unfolded kvs] assms(6) [unfolded kvs], of r c s1]
      assms(2,3)
    by (simp add: process_request_def)
  from assms(7) kvs have sel: "\<forall>k\<in>set (filter (\<lambda>k. \<not> reserved_key k) (map fst kvs)).
           snd (selectData L body (wildcard_selector k)) = Inr (v k)" by simp
  from wildcard_loop_success [OF assms(5) [unfolded kvs] sel, where r = r and c = c and s = "?s2"]
  obtain s' where
    s': "wildcard_loop L r body c (map fst kvs) ?s2 = Continue s'"
    "results s' = results ?s2 @
               map (\<lambda>k. \<lparr>request = newRequest L r (upperCaseEnv ?s2) k, value = v k,
                          cachedResponse = c\<rparr>)
                 (filter (\<lambda>k. \<not> reserved_key k) (map fst kvs))" by blast
  have r2: "results s' = results s @ ?E"
    using s'(2) fetch_Inr(2) [OF assms(3)] kvs
    by (simp add: log_events_def reserved_key_def [abs_def])
  have g: "getSecrets L (pre @ r # post) p = finish (requests_loop L post s')" for post
    using requests_loop_reach [OF assms(1), where r = r and post = post and p = p] pb s'(1) by simp
  have c1: "snd (getSecrets L pre p) = Inr (results s)"
    using assms(1) by (simp add: getSecrets_finish finish_def)
  have c2: "snd (getSecrets L (pre @ [r]) p) = Inr (results s @ ?E)"
    using g [of "[]"] r2 by (simp add: finish_def)
  have c3: "\<forall>out. snd (getSecrets L (pre @ r # post) p) = Inr out \<longrightarrow>
            (out = [] \<and> GateRun False \<in> set (fst (getSecrets L (pre @ r # post) p)))
            \<or> (\<exists>more. out = results s @ ?E @ more)"
  proof (intro allI impI)
    fix out assume o: "snd (getSecrets L (pre @ r # post) p) = Inr out"
    show "(out = [] \<and> GateRun False \<in> set (fst (getSecrets L (pre @ r # post) p)))
            \<or> (\<exists>more. out = results s @ ?E @ more)"
    proof (cases "requests_loop L post s'")
      case (Continue s2)
      from requests_loop_results [where L = L and rs = post and s = s'] Continue
      obtain more where "results s2 = results s' @ more" by auto
      moreover from o Continue have "out = results s2" by (simp add: g finish_def)
      ultimately have "out = results s @ ?E @ more" using r2 by simp
      then show ?thesis by (intro disjI2 exI [of _ more])
    next
      case (Return s2 res)
      from requests_loop_Return [OF Return] o Return show ?thesis
        by (simp add: g finish_def)
    next
      case (Throw s2 e)
      with o show ?thesis by (simp add: g finish_def)
    qed
  qed
  from c1 c2 c3 show ?thesis by (intro conjI)
qed

theorem wildcard_expansion_witness:
  "snd (getSecrets (example_lib False) [request_a] False)
     = Inr [\<lparr>request = request_a, value = JStr ''1'', cachedResponse = False\<rparr>]
   \<and> snd (getSecrets (example_lib False) ([request_a] @ [request_all]) False)
     = Inr [\<lparr>request = request_a, value = JStr ''1'', cachedResponse = False\<rparr>,
            \<lparr>request = req ''secret/app'' ''a'' ''a'' ''A'', value = JStr ''1'',
               cachedResponse = True\<rparr>,
            \<lparr>request = req ''secret/app'' ''b'' ''b'' ''B'', value = JStr ''2'',
               cachedResponse = True\<rparr>,
            \<lparr>request = req ''secret/app'' ''c.d'' ''cd'' ''CD'', value = JStr ''3'',
               cachedResponse = True\<rparr>]
   \<and> snd (getSecrets (example_lib False) ([request_a] @ request_all # [request_b]) False)
     = Inr ([\<lparr>request = request_a, value = JStr ''1'', cachedResponse = False\<rparr>,
            \<lparr>request = req ''secret/app'' ''a'' ''a'' ''A'', value = JStr ''1'',
               cachedResponse = True\<rparr>,
            \<lparr>request = req ''secret/app'' ''b'' ''b'' ''B'', value = JStr ''2'',
               cachedResponse = True\<rparr>,
            \<lparr>request = req ''secret/app'' ''c.d'' ''cd'' ''CD'', value = JStr ''3'',
               cachedResponse = True\<rparr>]
            @ [\<lparr>request = request_b, value = JStr ''2'', cachedResponse = True\<rparr>])"
proof -
  let ?L = "example_lib False"
  let ?raw = "example_stringify payload_app"
  let ?kvs = "[(''a'', JStr ''1''), (''b'', JStr ''2''), (''x-k8s-foo'', JStr ''z''),
               (''c.d'', JStr ''3'')] @ example_attributes ''runner-*''"
  let ?v = "\<lambda>k. JStr (if k = ''a'' then ''1'' else if k = ''b'' then ''2'' else ''3'')"
  let ?E = "map (\<lambda>k. \<lparr>request = newRequest ?L request_all
                                      (selector request_all = WILDCARD_UPPERCASE ?L) k,
                          value = ?v k, cachedResponse = True\<rparr>)
                 (filter (\<lambda>k. \<not> (startsWith k ''x-k8s-'' \<or> startsWith k ''x-github-''))
                    (for_in_keys (Some (JObj ?kvs))))"
  have "is_Continue (requests_loop ?L [request_a] initial_state)" by code_simp
  then have pre: "requests_loop ?L [request_a] initial_state = Continue after_request_a"
    unfolding after_request_a_def by (rule Continue_flow_state)
  have w: "selector request_all = WILDCARD ?L \<or> selector request_all = WILDCARD_UPPERCASE ?L"
    by code_simp
  have "responseCache after_request_a (''v1/'' @ path request_all) = Some ?raw" by code_simp
  from fetch_cached [OF this]
  have f: "fetch ?L request_all after_request_a
             = Inr (?raw, True, log_events [CacheHit (''v1/'' @ path request_all)] after_request_a)" .
  have ps: "JSON_parse ?L ?raw = Inr payload_app" by code_simp
  have n: "nested_data payload_app = Inr (Some (JObj ?kvs))" by code_simp
  have a: "isAllowed ?L (Some (JObj ?kvs)) = Inr True" by code_simp
  have sel: "\<forall>k\<in>set (filter (\<lambda>k. \<not> reserved_key k) (for_in_keys (Some (JObj ?kvs)))).
           snd (selectData ?L payload_app (wildcard_selector k)) = Inr (?v k)"
    by code_simp
  have r0: "results after_request_a
              = [\<lparr>request = request_a, value = JStr ''1'', cachedResponse = False\<rparr>]"
    by code_simp
  have e: "?E = [\<lparr>request = req ''secret/app'' ''a'' ''a'' ''A'', value = JStr ''1'',
               cachedResponse = True\<rparr>,
            \<lparr>request = req ''secret/app'' ''b'' ''b'' ''B'', value = JStr ''2'',
               cachedResponse = True\<rparr>,
            \<lparr>request = req ''secret/app'' ''c.d'' ''cd'' ''CD'', value = JStr ''3'',
               cachedResponse = True\<rparr>]"
    by code_simp
  have full: "snd (getSecrets ?L ([request_a] @ request_all # [request_b]) False)
     = Inr ([\<lparr>request = request_a, value = JStr ''1'', cachedResponse = False\<rparr>,
            \<lparr>request = req ''secret/app'' ''a'' ''a'' ''A'', value = JStr ''1'',
               cachedResponse = True\<rparr>,
            \<lparr>request = req ''secret/app'' ''b'' ''b'' ''B'', value = JStr ''2'',
               cachedResponse = True\<rparr>,
            \<lparr>request = req ''secret/app'' ''c.d'' ''cd'' ''CD'', value = JStr ''3'',
               cachedResponse = True\<rparr>]
            @ [\<lparr>request = request_b, value = JStr ''2'', cachedResponse = True\<rparr>])"
    by code_simp
  have y: "results after_request_a @ ?E
     = [\<lparr>request = request_a, value = JStr ''1'', cachedResponse = False\<rparr>,
            \<lparr>request = req ''secret/app'' ''a'' ''a'' ''A'', value = JStr ''1'',
               cachedResponse = True\<rparr>,
            \<lparr>request = req ''secret/app'' ''b'' ''b'' ''B'', value = JStr ''2'',
               cachedResponse = True\<rparr>,
            \<lparr>request = req ''secret/app'' ''c.d'' ''cd'' ''CD'', value = JStr ''3'',
               cachedResponse = True\<rparr>]"
    by (subst r0, subst e) (simp only: append.simps)
  note th = wildcard_expansion [OF pre w f ps n a sel, of False "[request_b]"]
  from th have "snd (getSecrets ?L [request_a] False) = Inr (results after_request_a)"
    by (rule conjunct1)
  then have c1: "snd (getSecrets ?L [request_a] False)
     = Inr [\<lparr>request = request_a, value = JStr ''1'', cachedResponse = False\<rparr>]"
    by (simp only: r0)
  from th have "snd (getSecrets ?L ([request_a] @ [request_all]) False)
     = Inr (results after_request_a @ ?E)"
    by (elim conjE)
  then have c2: "snd (getSecrets ?L ([request_a] @ [request_all]) False)
     = Inr [\<lparr>request = request_a, value = JStr ''1'', cachedResponse = False\<rparr>,
            \<lparr>request = req ''secret/app'' ''a'' ''a'' ''A'', value = JStr ''1'',
               cachedResponse = True\<rparr>,
            \<lparr>request = req ''secret/app'' ''b'' ''b'' ''B'', value = JStr ''2'',
               cachedResponse = True\<rparr>,
            \<lparr>request = req ''secret/app'' ''c.d'' ''cd'' ''CD'', value = JStr ''3'',
               cachedResponse = True\<rparr>]"
    by (simp only: y)
  from c1 c2 full show ?thesis by (intro conjI)
qed


subsection \<open>Names derived for the keys of a wildcard request\<close>




subsection \<open>Construction of the selector\<close>

text \<open>
  C10. For a request that is not a wildcard and whose payload the gate allows, the first
  selector handed to jsonata is \<open>data.data.\<close> followed by the caller's selector, which is
  put between double quotes first when it contains no dot; the only other selector that
  may be evaluated is the fallback of \<open>selectData\<close>, the same with one more \<open>data.\<close> in
  front; the caller's selector is never evaluated as it is. The selectors evaluated for
  the keys of a wildcard request are built by the same construction from the escaped
  keys.
\<close>

theorem selector_construction:
  assumes "fetch L r s = Inr (raw, c, s1)"
    and "JSON_parse L raw = Inr body"
    and "nested_data body = Inr inner"
    and "isAllowed L inner = Inr True"
  shows "(selector r \<noteq> WILDCARD L \<and> selector r \<noteq> WILDCARD_UPPERCASE L \<longrightarrow>
           (\<exists>more. trace (flow_state (process_request L r s))
                      = trace s1 @ GateRun True
                          # Jsonata (''data.data.'' @ (if CHR ''.'' \<in> set (selector r) then selector r
                                                       else [dquote] @ selector r @ [dquote]))
                          # more
              \<and> (more = []
                 \<or> more = [Jsonata (''data.'' @ ''data.data.''
                                      @ (if CHR ''.'' \<in> set (selector r) then selector r
                                         else [dquote] @ selector r @ [dquote]))])
              \<and> Jsonata (selector r) \<notin> set (drop (length (trace s1))
                                               (trace (flow_state (process_request L r s))))))
       \<and> (selector r = WILDCARD L \<or> selector r = WILDCARD_UPPERCASE L \<longrightarrow>
           (\<exists>js. trace (flow_state (process_request L r s)) = trace s1 @ GateRun True # js
              \<and> (\<forall>ev\<in>set js. \<exists>k\<in>set (for_in_keys inner).
                     \<not> (startsWith k ''x-k8s-'' \<or> startsWith k ''x-github-'')
                     \<and> (ev = Jsonata (''data.data.'' @ quote_selector (escape_key k))
                        \<or> ev = Jsonata (''data.'' @ ''data.data.''
                                          @ quote_selector (escape_key k))))))"
proof -
  from isAllowed_True_obj [OF assms(4)] obtain kvs where kvs: "inner = Some (JObj kvs)"
    by blast
  note pb = process_body_allowed [OF assms(2) assms(3) [unfolded kvs] assms(4) [unfolded kvs], of r c s1]
  have pr: "process_request L r s = process_body L r raw c s1"
    using assms(1) by (simp add: process_request_def)
  let ?q = "if CHR ''.'' \<in> set (selector r) then selector r else [dquote] @ selector r @ [dquote]"
  let ?sel = "''data.data.'' @ ?q"
  have q: "quote_selector (selector r) = ?q" by (simp add: quote_selector_def)
  show ?thesis
  proof (intro conjI impI)
    assume nw: "selector r \<noteq> WILDCARD L \<and> selector r \<noteq> WILDCARD_UPPERCASE L"
    let ?sd = "selectData L body ?sel"
    from nw pb pr q have tr: "trace (flow_state (process_request L r s))
        = trace s1 @ GateRun True # fst ?sd"
      by (cases "snd ?sd") (simp_all add: log_events_def)
    have ne: "?sel \<noteq> selector r" "''data.'' @ ?sel \<noteq> selector r"
      by (auto dest: arg_cong [where f = length])
    from selectData_events [of L body ?sel]
    show "\<exists>more. trace (flow_state (process_request L r s))
                      = trace s1 @ GateRun True # Jsonata ?sel # more
              \<and> (more = [] \<or> more = [Jsonata (''data.'' @ ?sel)])
              \<and> Jsonata (selector r) \<notin> set (drop (length (trace s1))
                                               (trace (flow_state (process_request L r s))))"
    proof
      assume "fst ?sd = [Jsonata ?sel]"
      with tr ne show ?thesis by (intro exI [of _ "[]"]) simp
    next
      assume "fst ?sd = [Jsonata ?sel, Jsonata (''data.'' @ ?sel)]"
      with tr ne show ?thesis by (intro exI [of _ "[Jsonata (''data.'' @ ?sel)]"]) simp
    qed
  next
    assume w: "selector r = WILDCARD L \<or> selector r = WILDCARD_UPPERCASE L"
    let ?s2 = "(log_events [GateRun True] s1)\<lparr>upperCaseEnv := (selector r = WILDCARD_UPPERCASE L)\<rparr>"
    from w pb pr have eq: "process_request L r s = wildcard_loop L r body c (map fst kvs) ?s2"
      by simp
    from wildcard_loop_selectors [OF assms(3) [unfolded kvs], where L = L and r = r and c = c
        and keys = "map fst kvs" and s = "?s2"] obtain js where
      js: "trace (flow_state (wildcard_loop L r body c (map fst kvs) ?s2)) = trace ?s2 @ js"
        "\<forall>ev\<in>set js. \<exists>k\<in>set (map fst kvs). \<not> reserved_key k
            \<and> (ev = Jsonata (''data.data.'' @ quote_selector (escape_key k))
               \<or> ev = Jsonata (''data.'' @ ''data.data.'' @ quote_selector (escape_key k)))"
      by blast
    from js(1) eq have "trace (flow_state (process_request L r s)) = trace s1 @ GateRun True # js"
      by (simp add: log_events_def)
    moreover from js(2) kvs have "\<forall>ev\<in>set js. \<exists>k\<in>set (for_in_keys inner).
                     \<not> (startsWith k ''x-k8s-'' \<or> startsWith k ''x-github-'')
                     \<and> (ev = Jsonata (''data.data.'' @ quote_selector (escape_key k))
                        \<or> ev = Jsonata (''data.'' @ ''data.data.''
                                          @ quote_selector (escape_key k)))"
      by (simp add: reserved_key_def)
    ultimately show "\<exists>js. trace (flow_state (process_request L r s)) = trace s1 @ GateRun True # js
              \<and> (\<forall>ev\<in>set js. \<exists>k\<in>set (for_in_keys inner).
                     \<not> (startsWith k ''x-k8s-'' \<or> startsWith k ''x-github-'')
                     \<and> (ev = Jsonata (''data.data.'' @ quote_selector (escape_key k))
                        \<or> ev = Jsonata (''data.'' @ ''data.data.''
                                          @ quote_selector (escape_key k))))"
      by (intro exI [of _ js] conjI)
  qed
qed


theorem selector_construction_witness:
  "trace (flow_state (process_request (example_lib False) request_a initial_state))
     = [CallGet ''v1/secret/app'', GateRun True, Jsonata (''data.data.'' @ [dquote] @ ''a'' @ [dquote])]
   \<and> snd (selectData (example_lib False) payload_app (''data.data.'' @ [dquote] @ ''a'' @ [dquote]))
     = Inr (JStr ''1'')
   \<and> trace (flow_state (process_request (example_lib False) request_all initial_state))
     = [CallGet ''v1/secret/app'', GateRun True,
        Jsonata (''data.data.'' @ [dquote] @ ''a'' @ [dquote]),
        Jsonata (''data.data.'' @ [dquote] @ ''b'' @ [dquote]),
        Jsonata (''data.data.'' @ [backtick] @ ''c.d'' @ [backtick])]"
proof -
  let ?L = "example_lib False"
  let ?p = "''v1/secret/app''"
  let ?raw = "example_stringify payload_app"
  let ?s1 = "(log_events [CallGet ?p] initial_state)
               \<lparr>responseCache := (responseCache (log_events [CallGet ?p] initial_state))(?p \<mapsto> ?raw)\<rparr>"
  let ?kvs = "[(''a'', JStr ''1''), (''b'', JStr ''2''), (''x-k8s-foo'', JStr ''z''),
               (''c.d'', JStr ''3'')] @ example_attributes ''runner-*''"
  have pa: "path request_a = ''secret/app''" by code_simp
  have pw: "path request_all = ''secret/app''" by code_simp
  have c1: "responseCache initial_state ?p = None" by code_simp
  have c2: "client_get ?L (called_paths (trace initial_state)) ?p = Inr ?raw" by code_simp
  have fa: "fetch ?L request_a initial_state = Inr (?raw, False, ?s1)"
    by (simp add: fetch_def Let_def pa c1 c2)
  have fw: "fetch ?L request_all initial_state = Inr (?raw, False, ?s1)"
    by (simp add: fetch_def Let_def pw c1 c2)
  have ps: "JSON_parse ?L ?raw = Inr payload_app" by code_simp
  have n: "nested_data payload_app = Inr (Some (JObj ?kvs))" by code_simp
  have a: "isAllowed ?L (Some (JObj ?kvs)) = Inr True" by code_simp
  have na: "selector request_a \<noteq> WILDCARD ?L \<and> selector request_a \<noteq> WILDCARD_UPPERCASE ?L"
    by code_simp
  have wa: "selector request_all = WILDCARD ?L \<or> selector request_all = WILDCARD_UPPERCASE ?L"
    by code_simp
  have t1: "trace (flow_state (process_request ?L request_a initial_state))
     = [CallGet ''v1/secret/app'', GateRun True, Jsonata (''data.data.'' @ [dquote] @ ''a'' @ [dquote])]"
    by code_simp
  have v1: "snd (selectData ?L payload_app (''data.data.'' @ [dquote] @ ''a'' @ [dquote]))
     = Inr (JStr ''1'')" by code_simp
  have t2: "trace (flow_state (process_request ?L request_all initial_state))
     = [CallGet ''v1/secret/app'', GateRun True,
        Jsonata (''data.data.'' @ [dquote] @ ''a'' @ [dquote]),
        Jsonata (''data.data.'' @ [dquote] @ ''b'' @ [dquote]),
        Jsonata (''data.data.'' @ [backtick] @ ''c.d'' @ [backtick])]" by code_simp
  from selector_construction [OF fa ps n a, THEN conjunct1, rule_format, OF na]
    selector_construction [OF fw ps n a, THEN conjunct2, rule_format, OF wa]
    t1 v1 t2
  show ?thesis by (intro conjI)
qed


end
